theory Spec2Isabelle
  imports Main
begin

section \<open>The single-worker priority executor of \<open>common/executor.h\<close>\<close>

text \<open>
  The executor owns one worker thread, one bounded priority channel and a running flag.
  Callers on any thread submit functions; the worker pops the entry of highest priority
  and runs it. The model below follows the class member by member. Three things the
  C++ leaves implicit are written out:
  \<^item> the identity of the calling thread is an argument of every operation that asks
    \<open>is_current()\<close>;
  \<^item> a call that would block returns \<open>Blocks\<close> together with the place it waits at;
  \<^item> which of several entries of equal, highest priority a pop delivers is decided by a
    number the caller of the model supplies (every number is a legal choice, and every
    highest entry is the choice of some number).
  A task body is modelled by what it does when it runs: it returns a value, it throws,
  or, for the lambda of \<open>stop()\<close> and of the destructor, it clears the running flag. A
  body runs as one step; what a body calls on its own executor appears as a call made
  on the worker thread.
\<close>

subsection \<open>Priorities (lines 39 to 51)\<close>

datatype task_priority =
    lowest_priority
  | lower_priority
  | low_priority
  | normal_priority
  | high_priority
  | higher_priority

text \<open>The value of the enumerator, as \<open>priority.value()\<close> passes it to a queue entry.\<close>

fun priority_value :: "task_priority \<Rightarrow> int" where
  "priority_value lowest_priority = 0"
| "priority_value lower_priority = 1"
| "priority_value low_priority = 2"
| "priority_value normal_priority = 3"
| "priority_value high_priority = 4"
| "priority_value higher_priority = 5"

subsection \<open>Values, exceptions, task bodies\<close>

type_synonym thread_id = nat
type_synonym handle = nat

datatype val = Void | Number int

text \<open>
  \<open>Invalid_operation m s\<close> is \<open>invalid_operation() << msg_info(m)\<close>, with
  \<open><< source_info(s)\<close> when the second field is present. \<open>Task_error k\<close> is any
  exception of kind \<open>k\<close> thrown by a task body.
\<close>

datatype exn =
    Invalid_operation (msg_info: string) (source_info: "string option")
  | Task_already_started
  | Future_uninitialized
  | Task_error string

datatype action =
    Return val
  | Raise exn
  | Set_not_running

datatype log_entry = Debug string | Logged_exception exn

subsection \<open>The packaged task and its shared state\<close>

text \<open>
  A \<open>boost::packaged_task\<close> with the state it shares with its future: the function it
  wraps, the flag \<open>started\<close> that its call operator tests and sets, and the result slot
  (unset, an exception, or a value). \<open>runs\<close> counts how often the wrapped function has
  been entered; the program does not read it.
\<close>

record packaged_task =
  body :: action
  started :: bool
  state :: "(exn + val) option"
  runs :: nat

text \<open>The queue entry (lines 55 to 80): a priority and the closure over \<open>raw_task\<close>.\<close>

record priority_function =
  priority :: int
  func :: handle

text \<open>\<open>operator<\<close> of line 76.\<close>

definition less_priority :: "priority_function \<Rightarrow> priority_function \<Rightarrow> bool" where
  "less_priority a b = (priority a < priority b)"

subsection \<open>The bounded priority channel\<close>

text \<open>
  Modelled from the spec: \<open>blocking_bounded_queue_adapter.h\<close> is not among the sources.
  Section 4.1 of the specification gives the contract: \<open>push\<close> blocks the caller until
  capacity is available, then inserts; \<open>try_push\<close> inserts and returns true if capacity
  allows, otherwise returns false without inserting; \<open>pop\<close> and \<open>try_pop\<close> remove and
  return the highest-priority item; capacity can change at any time and does not evict.
  \<open>items\<close> are the queued entries; \<open>waiting\<close> are the entries of callers blocked inside
  \<open>push\<close>.
\<close>

record channel =
  items :: "priority_function list"
  waiting :: "priority_function list"
  channel_capacity :: nat

text \<open>Modelled from the spec: capacity is available.\<close>

definition has_room :: "channel \<Rightarrow> bool" where
  "has_room ch = (length (items ch) < channel_capacity ch)"

text \<open>Modelled from the spec: \<open>try_push(item) -> bool\<close>.\<close>

definition try_push :: "priority_function \<Rightarrow> channel \<Rightarrow> bool \<times> channel" where
  "try_push x ch =
     (if has_room ch then (True, ch\<lparr>items := items ch @ [x]\<rparr>) else (False, ch))"

text \<open>
  Modelled from the spec: \<open>push(item)\<close>. The flag says whether the call has returned;
  when it has not, the caller waits with its entry until \<open>admit\<close> lets it in.
\<close>

definition push :: "priority_function \<Rightarrow> channel \<Rightarrow> bool \<times> channel" where
  "push x ch =
     (if has_room ch then (True, ch\<lparr>items := items ch @ [x]\<rparr>)
      else (False, ch\<lparr>waiting := waiting ch @ [x]\<rparr>))"

text \<open>
  Modelled from the spec: a caller blocked in \<open>push\<close> proceeds once capacity is
  available. \<open>admit k\<close> lets the \<open>k\<close>-th waiting caller insert its entry.
\<close>

definition admit :: "nat \<Rightarrow> channel \<Rightarrow> channel" where
  "admit k ch =
     (if k < length (waiting ch) \<and> has_room ch
      then ch\<lparr>items := items ch @ [waiting ch ! k],
              waiting := take k (waiting ch) @ drop (Suc k) (waiting ch)\<rparr>
      else ch)"

text \<open>
  Modelled from the spec: the highest-priority items, by position: the entries that no
  other entry is greater than under \<open>operator<\<close>. Among them the spec leaves the choice
  open; \<open>pop_index i\<close> is the choice number \<open>i\<close>.
\<close>

definition tops :: "priority_function list \<Rightarrow> nat list" where
  "tops xs = filter (\<lambda>k. \<forall>y \<in> set xs. \<not> less_priority (xs ! k) y) [0..<length xs]"

definition pop_index :: "nat \<Rightarrow> priority_function list \<Rightarrow> nat" where
  "pop_index i xs = tops xs ! (i mod length (tops xs))"

text \<open>
  Modelled from the spec: \<open>try_pop() -> Option<item>\<close>, the highest-priority item if one
  is available, else the empty result.
\<close>

definition try_pop :: "nat \<Rightarrow> channel \<Rightarrow> (priority_function \<times> channel) option" where
  "try_pop i ch =
     (if items ch = [] then None
      else let k = pop_index i (items ch)
           in Some (items ch ! k, ch\<lparr>items := take k (items ch) @ drop (Suc k) (items ch)\<rparr>))"

text \<open>
  Modelled from the spec: \<open>pop() -> item\<close>. \<open>None\<close> is the caller blocked on the empty
  channel.
\<close>

definition pop :: "nat \<Rightarrow> channel \<Rightarrow> (priority_function \<times> channel) option" where
  "pop i ch = try_pop i ch"

subsection \<open>The executor (lines 53 to 294)\<close>

text \<open>
  The members \<open>name_\<close>, \<open>is_running_\<close>, \<open>thread_\<close> and \<open>execution_queue_\<close> (lines 87
  to 90) without their trailing underscore; the member function \<open>is_running()\<close> is the
  field \<open>is_running\<close>. \<open>heap\<close> holds the tasks allocated with \<open>new\<close>, \<open>log_entries\<close>
  what has been handed to the logger.
\<close>

record executor =
  name :: string
  is_running :: bool
  thread :: thread_id
  execution_queue :: channel
  heap :: "handle \<rightharpoonup> packaged_task"
  next_handle :: handle
  log_entries :: "log_entry list"

text \<open>Where a blocked call waits.\<close>

datatype wait_point = Push_wait priority_function | Future_wait handle | Join_wait

datatype 'a outcome = Returns 'a | Throws exn | Blocks wait_point

datatype future = Future handle | Uninitialized

text \<open>The constructor (lines 93 to 99); \<open>w\<close> is the identity of the thread it spawns.\<close>

definition executor_new :: "string \<Rightarrow> thread_id \<Rightarrow> executor" where
  "executor_new n w =
     \<lparr>name = n, is_running = True, thread = w,
      execution_queue = \<lparr>items = [], waiting = [], channel_capacity = 512\<rparr>,
      heap = Map.empty, next_handle = 0, log_entries = []\<rparr>"

definition is_current :: "thread_id \<Rightarrow> executor \<Rightarrow> bool" where
  "is_current caller st = (caller = thread st)"

definition print :: "executor \<Rightarrow> string" where
  "print st = ''executor['' @ name st @ '']''"

text \<open>Running a submitted function: its result or its exception, and the new state.\<close>

fun perform :: "action \<Rightarrow> executor \<Rightarrow> (exn + val) \<times> executor" where
  "perform (Return v) st = (Inr v, st)"
| "perform (Raise e) st = (Inl e, st)"
| "perform Set_not_running st = (Inr Void, st\<lparr>is_running := False\<rparr>)"

text \<open>
  What \<open>packaged_task::operator()\<close> does to a task \<open>t\<close> at \<open>h\<close> that has not been
  started: it marks it started, runs the function and stores the value or the exception
  in the shared state.
\<close>

definition do_run :: "handle \<Rightarrow> packaged_task \<Rightarrow> executor \<Rightarrow> executor" where
  "do_run h t st =
     (case perform (body t) st of
        (r, st') \<Rightarrow>
          st'\<lparr>heap := (heap st')(h \<mapsto>
                 t\<lparr>started := True, state := Some r, runs := Suc (runs t)\<rparr>)\<rparr>)"

text \<open>
  \<open>packaged_task::operator()\<close>: throws \<open>task_already_started\<close> when the task has been
  started, and runs it otherwise. The first component is the exception that leaves the
  call. No task is freed while a queue entry refers to it (lemma
  \<open>reachable_handles_allocated\<close> below), so the first case does not arise on an entry
  taken from the channel.
\<close>

definition task_run :: "handle \<Rightarrow> executor \<Rightarrow> exn option \<times> executor" where
  "task_run h st =
     (case heap st h of
        None \<Rightarrow> (None, st)
      | Some t \<Rightarrow>
          if started t then (Some Task_already_started, st)
          else (None, do_run h t st))"

text \<open>The \<open>try\<close> and \<open>catch(boost::task_already_started&)\<close> both callers wrap around it.\<close>

definition catch_already_started :: "exn option \<times> executor \<Rightarrow> exn option \<times> executor" where
  "catch_already_started r =
     (case r of (Some Task_already_started, st) \<Rightarrow> (None, st) | _ \<Rightarrow> r)"

text \<open>The wait callback of lines 236 to 244.\<close>

definition wait_callback :: "thread_id \<Rightarrow> handle \<Rightarrow> executor \<Rightarrow> exn option \<times> executor" where
  "wait_callback caller h st =
     (if is_current caller st then catch_already_started (task_run h st) else (None, st))"

text \<open>The queued closure of lines 249 to 257, called through \<open>operator()\<close> of line 71.\<close>

definition call :: "priority_function \<Rightarrow> executor \<Rightarrow> exn option \<times> executor" where
  "call pf st = catch_already_started (task_run (func pf) st)"

text \<open>The result slot of the shared state behind a handle.\<close>

definition shared_state :: "executor \<Rightarrow> handle \<Rightarrow> (exn + val) option" where
  "shared_state st h = (case heap st h of None \<Rightarrow> None | Some t \<Rightarrow> state t)"

definition deliver :: "exn + val \<Rightarrow> val outcome" where
  "deliver r = (case r of Inl e \<Rightarrow> Throws e | Inr v \<Rightarrow> Returns v)"

text \<open>
  \<open>unique_future::get()\<close>: an uninitialized future throws; a resolved one delivers; an
  unresolved one first calls the wait callback and then waits for the result.
\<close>

definition future_get :: "thread_id \<Rightarrow> future \<Rightarrow> executor \<Rightarrow> val outcome \<times> executor" where
  "future_get caller fut st =
     (case fut of
        Uninitialized \<Rightarrow> (Throws Future_uninitialized, st)
      | Future h \<Rightarrow>
          (case shared_state st h of
             Some r \<Rightarrow> (deliver r, st)
           | None \<Rightarrow>
               (case wait_callback caller h st of
                  (Some e, st') \<Rightarrow> (Throws e, st')
                | (None, st') \<Rightarrow>
                    (case shared_state st' h of
                       Some r \<Rightarrow> (deliver r, st')
                     | None \<Rightarrow> (Blocks (Future_wait h), st')))))"

text \<open>\<open>unique_future::wait()\<close>: the same, without rethrowing the stored exception.\<close>

definition future_wait :: "thread_id \<Rightarrow> future \<Rightarrow> executor \<Rightarrow> unit outcome \<times> executor" where
  "future_wait caller fut st =
     (case fut of
        Uninitialized \<Rightarrow> (Throws Future_uninitialized, st)
      | Future h \<Rightarrow>
          (case shared_state st h of
             Some r \<Rightarrow> (Returns (), st)
           | None \<Rightarrow>
               (case wait_callback caller h st of
                  (Some e, st') \<Rightarrow> (Throws e, st')
                | (None, st') \<Rightarrow>
                    (case shared_state st' h of
                       Some r \<Rightarrow> (Returns (), st')
                     | None \<Rightarrow> (Blocks (Future_wait h), st')))))"

text \<open>
  \<open>internal_begin_invoke\<close> (lines 207 to 275). \<open>new task_type\<close> takes the next free
  handle; \<open>delete raw_task\<close> frees the task. When \<open>push\<close> does not return at once the
  caller is blocked at line 270; once its entry is in, it returns the future of line
  274.
\<close>

definition internal_begin_invoke ::
  "action \<Rightarrow> bool \<Rightarrow> task_priority \<Rightarrow> executor \<Rightarrow> future outcome \<times> executor" where
  "internal_begin_invoke f try_begin p st =
     (let raw_task = next_handle st;
          st1 = st\<lparr>heap := (heap st)(raw_task \<mapsto>
                      \<lparr>body = f, started = False, state = None, runs = 0\<rparr>),
                    next_handle := Suc raw_task\<rparr>;
          prio_func = \<lparr>priority = priority_value p, func = raw_task\<rparr>
      in case try_push prio_func (execution_queue st1) of
           (True, q) \<Rightarrow> (Returns (Future raw_task), st1\<lparr>execution_queue := q\<rparr>)
         | (False, _) \<Rightarrow>
             if try_begin
             then (Returns Uninitialized, st1\<lparr>heap := (heap st1)(raw_task := None)\<rparr>)
             else
               (let st2 = st1\<lparr>log_entries := log_entries st1 @
                                [Debug (print st1 @ '' Overflow. Blocking caller.'')]\<rparr>
                in case push prio_func (execution_queue st2) of
                     (True, q) \<Rightarrow> (Returns (Future raw_task), st2\<lparr>execution_queue := q\<rparr>)
                   | (False, q) \<Rightarrow> (Blocks (Push_wait prio_func), st2\<lparr>execution_queue := q\<rparr>)))"

text \<open>\<open>try_begin_invoke\<close> (lines 118 to 126).\<close>

definition try_begin_invoke ::
  "action \<Rightarrow> task_priority \<Rightarrow> executor \<Rightarrow> future outcome \<times> executor" where
  "try_begin_invoke f p st =
     (if \<not> is_running st
      then (Throws (Invalid_operation ''executor not running.'' None), st)
      else internal_begin_invoke f True p st)"

text \<open>\<open>begin_invoke\<close> (lines 128 to 135).\<close>

definition begin_invoke ::
  "action \<Rightarrow> task_priority \<Rightarrow> executor \<Rightarrow> future outcome \<times> executor" where
  "begin_invoke f p st =
     (if \<not> is_running st
      then (Throws (Invalid_operation ''executor not running.'' (Some (name st))), st)
      else internal_begin_invoke f False p st)"

text \<open>\<open>invoke\<close> (lines 137 to 144).\<close>

definition invoke ::
  "thread_id \<Rightarrow> action \<Rightarrow> task_priority \<Rightarrow> executor \<Rightarrow> val outcome \<times> executor" where
  "invoke caller f p st =
     (if is_current caller st
      then (case perform f st of (r, st') \<Rightarrow> (deliver r, st'))
      else (case begin_invoke f p st of
              (Returns fut, st') \<Rightarrow> future_get caller fut st'
            | (Throws e, st') \<Rightarrow> (Throws e, st')
            | (Blocks w, st') \<Rightarrow> (Blocks w, st')))"

text \<open>\<open>yield\<close> (lines 146 to 154).\<close>

definition yield :: "thread_id \<Rightarrow> nat \<Rightarrow> executor \<Rightarrow> unit outcome \<times> executor" where
  "yield caller i st =
     (if \<not> is_current caller st
      then (Throws (Invalid_operation ''Executor can only yield inside of thread context.''
                      (Some (name st))), st)
      else (case try_pop i (execution_queue st) of
              None \<Rightarrow> (Returns (), st)
            | Some (pf, q) \<Rightarrow>
                (case call pf (st\<lparr>execution_queue := q\<rparr>) of
                   (Some e, st') \<Rightarrow> (Throws e, st')
                 | (None, st') \<Rightarrow> (Returns (), st'))))"

text \<open>\<open>set_capacity\<close>, \<open>capacity\<close>, \<open>clear\<close>, \<open>size\<close> (lines 156 to 188).\<close>

definition set_capacity :: "nat \<Rightarrow> executor \<Rightarrow> executor" where
  "set_capacity n st = st\<lparr>execution_queue := (execution_queue st)\<lparr>channel_capacity := n\<rparr>\<rparr>"

definition capacity :: "executor \<Rightarrow> nat" where
  "capacity st = channel_capacity (execution_queue st)"

definition clear :: "executor \<Rightarrow> executor" where
  "clear st = st\<lparr>execution_queue := (execution_queue st)\<lparr>items := []\<rparr>\<rparr>"

definition executor_size :: "executor \<Rightarrow> nat" where
  "executor_size st = length (items (execution_queue st))"

text \<open>\<open>stop\<close> (lines 172 to 178) and \<open>wait\<close> (lines 180 to 183).\<close>

definition stop :: "thread_id \<Rightarrow> executor \<Rightarrow> val outcome \<times> executor" where
  "stop caller st = invoke caller Set_not_running normal_priority st"

definition wait :: "thread_id \<Rightarrow> executor \<Rightarrow> val outcome \<times> executor" where
  "wait caller st = invoke caller (Return Void) lowest_priority st"

text \<open>
  One pass through the body of the loop of \<open>run\<close> (lines 282 to 291): \<open>None\<close> is the
  worker blocked in \<open>pop\<close>; an exception that leaves the entry is logged.
\<close>

definition run_iteration :: "nat \<Rightarrow> executor \<Rightarrow> executor option" where
  "run_iteration i st =
     (case pop i (execution_queue st) of
        None \<Rightarrow> None
      | Some (pf, q) \<Rightarrow>
          (case call pf (st\<lparr>execution_queue := q\<rparr>) of
             (None, st') \<Rightarrow> Some st'
           | (Some e, st') \<Rightarrow> Some (st'\<lparr>log_entries := log_entries st' @ [Logged_exception e]\<rparr>)))"

text \<open>
  \<open>run\<close> (lines 277 to 293), with no other thread acting meanwhile: \<open>run st st'\<close> says the
  loop entered in \<open>st\<close> returns in \<open>st'\<close>.
\<close>

inductive run :: "executor \<Rightarrow> executor \<Rightarrow> bool" where
  run_exit: "\<not> is_running st \<Longrightarrow> run st st"
| run_loop: "is_running st \<Longrightarrow> run_iteration i st = Some st1 \<Longrightarrow> run st1 st' \<Longrightarrow> run st st'"

text \<open>
  The destructor (lines 101 to 116): the shutdown task goes through
  \<open>internal_begin_invoke(f, false)\<close>, so at the default priority of line 211; the
  destructor waits for it, logs what the attempt throws, and joins the worker, which
  has returned from \<open>run\<close> once the flag is clear.
\<close>

definition join :: "executor \<Rightarrow> unit outcome \<times> executor" where
  "join st = (if is_running st then (Blocks Join_wait, st) else (Returns (), st))"

definition destructor :: "thread_id \<Rightarrow> executor \<Rightarrow> unit outcome \<times> executor" where
  "destructor caller st =
     (case internal_begin_invoke Set_not_running False normal_priority st of
        (Returns fut, st1) \<Rightarrow>
          (case future_wait caller fut st1 of
             (Returns u, st2) \<Rightarrow> join st2
           | (Throws e, st2) \<Rightarrow> join (st2\<lparr>log_entries := log_entries st2 @ [Logged_exception e]\<rparr>)
           | (Blocks w, st2) \<Rightarrow> (Blocks w, st2))
      | (Throws e, st1) \<Rightarrow> join (st1\<lparr>log_entries := log_entries st1 @ [Logged_exception e]\<rparr>)
      | (Blocks w, st1) \<Rightarrow> (Blocks w, st1))"

subsection \<open>Interleavings\<close>

text \<open>
  What the threads of a program can do to one executor, one step at a time: the public
  member functions called from some thread, a caller blocked in \<open>push\<close> getting in, and
  one pass of the worker through its loop (which does nothing once the flag is clear,
  since the loop has been left, or while the channel is empty). A call made from
  inside a task body is a call whose thread is the worker's. The loop of \<open>clear\<close>
  (line 169) is not atomic: \<open>Call_clear\<close> is the whole call with nothing in between,
  \<open>Clear_pop\<close> one \<open>try_pop\<close> of its loop, after which other threads may act.
\<close>

datatype event =
    Call_try_begin_invoke action task_priority
  | Call_begin_invoke action task_priority
  | Call_invoke thread_id action task_priority
  | Call_get thread_id future
  | Call_future_wait thread_id future
  | Call_yield thread_id nat
  | Call_set_capacity nat
  | Call_clear
  | Clear_pop nat
  | Call_stop thread_id
  | Call_wait thread_id
  | Call_destructor thread_id
  | Admitted nat
  | Worker_pass nat

fun after :: "event \<Rightarrow> executor \<Rightarrow> executor" where
  "after (Call_try_begin_invoke f p) st = snd (try_begin_invoke f p st)"
| "after (Call_begin_invoke f p) st = snd (begin_invoke f p st)"
| "after (Call_invoke c f p) st = snd (invoke c f p st)"
| "after (Call_get c fut) st = snd (future_get c fut st)"
| "after (Call_future_wait c fut) st = snd (future_wait c fut st)"
| "after (Call_yield c i) st = snd (yield c i st)"
| "after (Call_set_capacity n) st = set_capacity n st"
| "after Call_clear st = clear st"
| "after (Clear_pop i) st =
     (case try_pop i (execution_queue st) of
        None \<Rightarrow> st
      | Some (pf, q) \<Rightarrow> st\<lparr>execution_queue := q\<rparr>)"
| "after (Call_stop c) st = snd (stop c st)"
| "after (Call_wait c) st = snd (wait c st)"
| "after (Call_destructor c) st = snd (destructor c st)"
| "after (Admitted k) st = st\<lparr>execution_queue := admit k (execution_queue st)\<rparr>"
| "after (Worker_pass i) st =
     (if is_running st
      then (case run_iteration i st of None \<Rightarrow> st | Some st' \<Rightarrow> st')
      else st)"

text \<open>The state after a sequence of steps, and the states an executor can be in.\<close>

definition after_all :: "event list \<Rightarrow> executor \<Rightarrow> executor" where
  "after_all evs st = fold after evs st"

inductive reachable :: "executor \<Rightarrow> bool" where
  reachable_new: "reachable (executor_new n w)"
| reachable_step: "reachable st \<Longrightarrow> reachable (after e st)"

text \<open>
  Handles are given out once: the entries in the channel and those waiting to get in
  refer to different tasks, all allocated.
\<close>

definition handles :: "executor \<Rightarrow> handle list" where
  "handles st = map func (items (execution_queue st) @ waiting (execution_queue st))"

definition well_formed :: "executor \<Rightarrow> bool" where
  "well_formed st = (distinct (handles st) \<and> list_all (\<lambda>h. h < next_handle st) (handles st))"

subsection \<open>Example states\<close>

text \<open>
  A new executor whose worker is thread 0; the same after thread 1 has submitted a task
  returning 7 at normal priority; and after a task submitted at low priority, a
  \<open>stop()\<close> from thread 1, and two passes of the worker.
\<close>

definition new_example :: executor where
  "new_example = executor_new ''video'' 0"

definition submitted_example :: executor where
  "submitted_example = after (Call_begin_invoke (Return (Number 7)) normal_priority) new_example"

definition abandoned_example :: executor where
  "abandoned_example =
     after_all [Call_begin_invoke (Return (Number 7)) low_priority, Call_stop 1,
                Worker_pass 0, Worker_pass 0] new_example"


text \<open>
  An executor of capacity 1 whose channel is full: thread 1 has submitted one task.
\<close>

definition full_example :: executor where
  "full_example =
     after (Call_begin_invoke (Return (Number 7)) normal_priority) (set_capacity 1 new_example)"

text \<open>The same after thread 1 has called \<open>begin_invoke\<close> once more.\<close>

definition blocked_example :: executor where
  "blocked_example = after (Call_begin_invoke (Return (Number 8)) high_priority) full_example"

text \<open>
  The executor with one task queued, after code running on the worker thread has called
  \<open>stop()\<close>.
\<close>

definition stopped_example :: executor where
  "stopped_example = snd (stop 0 submitted_example)"



definition waiting_example :: executor where
  "waiting_example = after (Call_wait 1) submitted_example"

text \<open>
  A new executor after thread 1 has submitted a task at low priority and then entered
  the destructor; and the same after one pass of the worker.
\<close>

definition destroying_example :: executor where
  "destroying_example =
     after_all [Call_begin_invoke (Return (Number 7)) low_priority, Call_destructor 1] new_example"

definition destroyed_example :: executor where
  "destroyed_example = after (Worker_pass 0) destroying_example"

text \<open>
  An executor of capacity 1 whose channel is full: thread 1 has submitted one task, at
  low priority.
\<close>

definition crowded_example :: executor where
  "crowded_example =
     after_all [Call_set_capacity 1, Call_begin_invoke (Return (Number 7)) low_priority]
       new_example"

text \<open>
  A new executor after thread 1 has submitted one task at low priority and two at high
  priority.
\<close>

definition ordered_example :: executor where
  "ordered_example =
     after_all [Call_begin_invoke (Return (Number 1)) low_priority,
                Call_begin_invoke (Return (Number 2)) high_priority,
                Call_begin_invoke (Return (Number 3)) high_priority] new_example"

subsection \<open>Sequences of steps and the tasks in the channel\<close>

text \<open>
  The entries the worker's loop takes out of the channel, in order, along a sequence of
  steps of any kind.
\<close>

fun dequeued_by_worker :: "event list \<Rightarrow> executor \<Rightarrow> priority_function list" where
  "dequeued_by_worker [] st = []"
| "dequeued_by_worker (Worker_pass i # evs) st =
     (if is_running st
      then (case pop i (execution_queue st) of
              None \<Rightarrow> dequeued_by_worker evs st
            | Some (pf, q) \<Rightarrow> pf # dequeued_by_worker evs (after (Worker_pass i) st))
      else dequeued_by_worker evs st)"
| "dequeued_by_worker (e # evs) st = dequeued_by_worker evs (after e st)"

text \<open>
  A task has run: its function has been entered, once, and its result is stored.
\<close>

definition has_run :: "executor \<Rightarrow> handle \<Rightarrow> bool" where
  "has_run st h =
     (case heap st h of
        None \<Rightarrow> False
      | Some t \<Rightarrow> started t \<and> state t \<noteq> None \<and> runs t = 1)"

text \<open>The function of the task behind a handle has been entered.\<close>

definition is_started :: "executor \<Rightarrow> handle \<Rightarrow> bool" where
  "is_started st h = (case heap st h of None \<Rightarrow> False | Some t \<Rightarrow> started t)"

text \<open>
  The steps that take no entry out of the channel without running it: every step but a
  \<open>clear\<close> and a pass of its loop.
\<close>

fun keeps_entries :: "event \<Rightarrow> bool" where
  "keeps_entries Call_clear = False"
| "keeps_entries (Clear_pop i) = False"
| "keeps_entries e = True"

text \<open>
  The steps in which no code on the worker thread \<open>w\<close> runs the task at \<open>h\<close> in
  place: every step but a \<open>yield\<close> made on that thread and a wait, on that thread, on
  the future of the task.
\<close>

fun no_inline_run :: "thread_id \<Rightarrow> handle \<Rightarrow> event \<Rightarrow> bool" where
  "no_inline_run w h (Call_get c fut) = (\<not> (c = w \<and> fut = Future h))"
| "no_inline_run w h (Call_future_wait c fut) = (\<not> (c = w \<and> fut = Future h))"
| "no_inline_run w h (Call_yield c i) = (c \<noteq> w)"
| "no_inline_run w h e = True"

text \<open>
  The steps that leave the marker of a \<open>wait()\<close> alone: every step but a \<open>clear\<close> and a
  wait, on the worker thread \<open>w\<close>, on the future of the marker at \<open>m\<close>. That future is
  the temporary of line 143; only the caller of \<open>wait()\<close> holds it, and it reaches line
  143 only when it is not the worker.
\<close>

fun undisturbed :: "thread_id \<Rightarrow> handle \<Rightarrow> event \<Rightarrow> bool" where
  "undisturbed w m Call_clear = False"
| "undisturbed w m (Clear_pop i) = False"
| "undisturbed w m (Call_get c fut) = (\<not> (c = w \<and> fut = Future m))"
| "undisturbed w m (Call_future_wait c fut) = (\<not> (c = w \<and> fut = Future m))"
| "undisturbed w m e = True"


section \<open>Properties of the channel\<close>

text \<open>Some entry has the greatest priority, so a non-empty channel has a top position.\<close>

lemma tops_nonempty:
  assumes ne: "xs \<noteq> []"
  shows "tops xs \<noteq> []"
proof -
  define m where "m = Max (priority ` set xs)"
  have "m \<in> priority ` set xs"
    unfolding m_def using ne by (intro Max_in) auto
  then obtain x where x: "x \<in> set xs" "priority x = m" by auto
  then obtain k where k: "k < length xs" "xs ! k = x"
    by (auto simp: in_set_conv_nth)
  have "\<forall>y \<in> set xs. \<not> less_priority (xs ! k) y"
  proof
    fix y assume "y \<in> set xs"
    then have "priority y \<le> m" unfolding m_def by (intro Max_ge) auto
    then show "\<not> less_priority (xs ! k) y" using k x by (simp add: less_priority_def)
  qed
  then have "k \<in> set (tops xs)" using k by (simp add: tops_def)
  then show ?thesis by auto
qed

lemma pop_index_top:
  assumes "xs \<noteq> []"
  shows "pop_index i xs < length xs
       \<and> (\<forall>y \<in> set xs. priority y \<le> priority (xs ! pop_index i xs))"
proof -
  have "tops xs \<noteq> []" using assms by (rule tops_nonempty)
  then have "pop_index i xs \<in> set (tops xs)" by (simp add: pop_index_def)
  then show ?thesis by (auto simp: tops_def less_priority_def not_less)
qed

lemma top_is_chosen:
  assumes "k < length xs" "\<forall>y \<in> set xs. priority y \<le> priority (xs ! k)"
  shows "\<exists>i. pop_index i xs = k"
proof -
  have "k \<in> set (tops xs)" using assms by (auto simp: tops_def less_priority_def)
  then obtain j where j: "j < length (tops xs)" "tops xs ! j = k"
    by (auto simp: in_set_conv_nth)
  then have "pop_index j xs = k" by (simp add: pop_index_def)
  then show ?thesis ..
qed

lemma try_pop_Some:
  assumes "try_pop i ch = Some (x, ch')"
  shows "x \<in> set (items ch) \<and> (\<forall>y \<in> set (items ch). priority y \<le> priority x)
       \<and> (\<exists>k < length (items ch). x = items ch ! k
             \<and> items ch' = take k (items ch) @ drop (Suc k) (items ch))
       \<and> waiting ch' = waiting ch \<and> channel_capacity ch' = channel_capacity ch"
proof -
  from assms have ne: "items ch \<noteq> []" by (auto simp: try_pop_def split: if_splits)
  from pop_index_top[OF ne, of i] assms ne show ?thesis
    by (auto simp: try_pop_def Let_def)
qed

lemma try_pop_None: "try_pop i ch = None \<longleftrightarrow> items ch = []"
  by (simp add: try_pop_def Let_def)

lemma try_pop_items_subset:
  "try_pop i ch = Some (x, ch') \<Longrightarrow> set (items ch') \<subseteq> set (items ch)"
  by (auto dest!: try_pop_Some dest: in_set_takeD in_set_dropD)

lemma try_pop_any_top:
  assumes "k < length (items ch)"
    and "\<forall>y \<in> set (items ch). priority y \<le> priority (items ch ! k)"
  shows "\<exists>j ch'. try_pop j ch = Some (items ch ! k, ch')"
proof -
  obtain j where j: "pop_index j (items ch) = k" using top_is_chosen[OF assms] by blast
  have ne: "items ch \<noteq> []" using assms(1) by auto
  have "try_pop j ch =
      Some (items ch ! k, ch\<lparr>items := take k (items ch) @ drop (Suc k) (items ch)\<rparr>)"
    using j ne by (simp add: try_pop_def Let_def)
  then show ?thesis by blast
qed

lemmas channel_eval =
  pop_def try_pop_def try_push_def has_room_def
  pop_index_def tops_def less_priority_def Let_def

lemmas executor_eval =
  executor_new_def try_begin_invoke_def begin_invoke_def internal_begin_invoke_def invoke_def
  yield_def stop_def wait_def destructor_def join_def run_iteration_def call_def
  wait_callback_def task_run_def do_run_def catch_already_started_def future_get_def
  future_wait_def shared_state_def deliver_def is_current_def print_def set_capacity_def
  clear_def admit_def push_def after_all_def new_example_def

section \<open>Properties of the executor's operations\<close>

text \<open>
  Every path that runs a queued task goes through \<open>task_run\<close>; the state it leaves is
  the one it found or the one \<open>do_run\<close> gives for a task not yet started.
\<close>

lemma snd_catch_already_started: "snd (catch_already_started r) = snd r"
  by (auto simp: catch_already_started_def split: prod.splits option.splits exn.splits)

lemma fst_catch_task_run: "fst (catch_already_started (task_run h st)) = None"
  by (auto simp: catch_already_started_def task_run_def split: prod.splits option.splits exn.splits if_splits)

lemma task_run_state:
  "snd (task_run h st) = st
   \<or> (\<exists>t. heap st h = Some t \<and> \<not> started t \<and> snd (task_run h st) = do_run h t st)"
  by (auto simp: task_run_def split: option.splits)

lemma call_state:
  "snd (call pf st) = st
   \<or> (\<exists>t. heap st (func pf) = Some t \<and> \<not> started t \<and> snd (call pf st) = do_run (func pf) t st)"
  using task_run_state[of "func pf" st] by (simp add: call_def snd_catch_already_started)

lemma fst_call: "fst (call pf st) = None"
  by (simp add: call_def fst_catch_task_run)

lemma wait_callback_state:
  "snd (wait_callback c h st) = st
   \<or> (\<exists>t. heap st h = Some t \<and> \<not> started t \<and> snd (wait_callback c h st) = do_run h t st)"
  using task_run_state[of h st] by (simp add: wait_callback_def snd_catch_already_started)

lemma fst_wait_callback: "fst (wait_callback c h st) = None"
  by (simp add: wait_callback_def fst_catch_task_run)

lemma future_get_state:
  "snd (future_get c fut st) = st \<or> (\<exists>h. snd (future_get c fut st) = snd (wait_callback c h st))"
proof (cases fut)
  case (Future h)
  obtain x s' where w: "wait_callback c h st = (x, s')" by (cases "wait_callback c h st")
  have "snd (future_get c fut st) = st \<or> snd (future_get c fut st) = s'"
    using Future w by (simp add: future_get_def split: option.splits)
  then show ?thesis using w by (metis snd_conv)
next
  case Uninitialized
  then show ?thesis by (simp add: future_get_def)
qed

lemma future_wait_state:
  "snd (future_wait c fut st) = st \<or> (\<exists>h. snd (future_wait c fut st) = snd (wait_callback c h st))"
proof (cases fut)
  case (Future h)
  obtain x s' where w: "wait_callback c h st = (x, s')" by (cases "wait_callback c h st")
  have "snd (future_wait c fut st) = st \<or> snd (future_wait c fut st) = s'"
    using Future w by (simp add: future_wait_def split: option.splits)
  then show ?thesis using w by (metis snd_conv)
next
  case Uninitialized
  then show ?thesis by (simp add: future_wait_def)
qed

text \<open>
  A property of the state holds after every step if it survives the eight elementary
  changes the operations are built from.
\<close>

lemma after_preserves:
  assumes run: "\<And>st h t. P st \<Longrightarrow> heap st h = Some t \<Longrightarrow> \<not> started t \<Longrightarrow> P (do_run h t st)"
    and submit: "\<And>st f b p. P st \<Longrightarrow> P (snd (internal_begin_invoke f b p st))"
    and inline: "\<And>st f. P st \<Longrightarrow> P (snd (perform f st))"
    and popped: "\<And>st i x q. P st \<Longrightarrow> try_pop i (execution_queue st) = Some (x, q)
                  \<Longrightarrow> P (st\<lparr>execution_queue := q\<rparr>)"
    and cap: "\<And>st n. P st \<Longrightarrow> P (set_capacity n st)"
    and clr: "\<And>st. P st \<Longrightarrow> P (clear st)"
    and adm: "\<And>st k. P st \<Longrightarrow> P (st\<lparr>execution_queue := admit k (execution_queue st)\<rparr>)"
    and logged: "\<And>st l. P st \<Longrightarrow> P (st\<lparr>log_entries := l\<rparr>)"
    and P: "P st"
  shows "P (after e st)"
proof -
  have cb: "P (snd (wait_callback c h s))" if "P s" for c h s
    using wait_callback_state[of c h s] run that by auto
  have cl: "P (snd (call pf s))" if "P s" for pf s
    using call_state[of pf s] run that by auto
  have fg: "P (snd (future_get c fut s))" if "P s" for c fut s
    using future_get_state[of c fut s] cb that by auto
  have fw: "P (snd (future_wait c fut s))" if "P s" for c fut s
    using future_wait_state[of c fut s] cb that by auto
  have tbi: "P (snd (try_begin_invoke f p s))" if "P s" for f p s
    using submit that by (simp add: try_begin_invoke_def)
  have bi: "P (snd (begin_invoke f p s))" if "P s" for f p s
    using submit that by (simp add: begin_invoke_def)
  have inv: "P (snd (invoke c f p s))" if "P s" for c f p s
  proof (cases "is_current c s")
    case True
    then show ?thesis using inline[OF that, of f] by (cases "perform f s") (simp add: invoke_def)
  next
    case False
    obtain r s1 where b: "begin_invoke f p s = (r, s1)" by (cases "begin_invoke f p s")
    have "P s1" using bi[OF that, of f p] b by simp
    then show ?thesis using False b fg[of s1 c]
      by (cases r) (simp_all add: invoke_def)
  qed
  have yl: "P (snd (yield c i s))" if "P s" for c i s
  proof (cases "try_pop i (execution_queue s)")
    case None
    then show ?thesis using that by (simp add: yield_def)
  next
    case (Some a)
    obtain x q where a: "a = (x, q)" by (cases a)
    have "P (s\<lparr>execution_queue := q\<rparr>)" using popped[OF that] Some a by simp
    from cl[OF this, of x] show ?thesis using that Some a
      by (auto simp: yield_def split: prod.splits option.splits)
  qed
  have jn: "P (snd (join s))" if "P s" for s
    using that by (simp add: join_def)
  have ds: "P (snd (destructor c s))" if "P s" for c s
  proof -
    obtain r s1 where b: "internal_begin_invoke Set_not_running False normal_priority s = (r, s1)"
      by (cases "internal_begin_invoke Set_not_running False normal_priority s")
    have s1: "P s1" using submit[OF that, of Set_not_running False normal_priority] b by simp
    show ?thesis
    proof (cases r)
      case (Returns fut)
      obtain r2 s2 where w: "future_wait c fut s1 = (r2, s2)" by (cases "future_wait c fut s1")
      have "P s2" using fw[OF s1, of c fut] w by simp
      then show ?thesis using b Returns w jn logged
        by (cases r2) (simp_all add: destructor_def)
    next
      case (Throws e)
      then show ?thesis using b s1 jn logged by (simp add: destructor_def)
    next
      case (Blocks w)
      then show ?thesis using b s1 by (simp add: destructor_def)
    qed
  qed
  have wk: "P (after (Worker_pass i) s)" if "P s" for i s
  proof (cases "try_pop i (execution_queue s)")
    case None
    then show ?thesis using that by (simp add: run_iteration_def pop_def)
  next
    case (Some a)
    obtain x q where a: "a = (x, q)" by (cases a)
    have "P (s\<lparr>execution_queue := q\<rparr>)" using popped[OF that] Some a by simp
    from cl[OF this, of x] show ?thesis using that Some a logged
      by (auto simp: run_iteration_def pop_def split: prod.splits option.splits)
  qed
  have cp: "P (after (Clear_pop i) s)" if "P s" for i s
  proof (cases "try_pop i (execution_queue s)")
    case None
    then show ?thesis using that by simp
  next
    case (Some a)
    obtain x q where a: "a = (x, q)" by (cases a)
    have "P (s\<lparr>execution_queue := q\<rparr>)" using popped[OF that] Some a by simp
    then show ?thesis using Some a by simp
  qed
  show ?thesis
  proof (cases e)
    case (Clear_pop i)
    then show ?thesis using cp[OF P] by simp
  next
    case (Worker_pass i)
    then show ?thesis using wk[OF P] by simp
  qed (use P tbi bi inv fg fw yl cap clr adm ds in \<open>simp_all add: stop_def wait_def\<close>)
qed


text \<open>What the elementary changes leave alone.\<close>

lemma perform_frame:
  "heap (snd (perform f st)) = heap st \<and> execution_queue (snd (perform f st)) = execution_queue st
   \<and> next_handle (snd (perform f st)) = next_handle st \<and> name (snd (perform f st)) = name st
   \<and> thread (snd (perform f st)) = thread st \<and> log_entries (snd (perform f st)) = log_entries st
   \<and> (is_running (snd (perform f st)) \<longrightarrow> is_running st)"
  by (cases f) simp_all

lemma do_run_frame:
  "execution_queue (do_run h t st) = execution_queue st
   \<and> next_handle (do_run h t st) = next_handle st \<and> name (do_run h t st) = name st
   \<and> thread (do_run h t st) = thread st \<and> log_entries (do_run h t st) = log_entries st
   \<and> (is_running (do_run h t st) \<longrightarrow> is_running st)
   \<and> (\<forall>h'. h' \<noteq> h \<longrightarrow> heap (do_run h t st) h' = heap st h')
   \<and> heap (do_run h t st) h =
       Some (t\<lparr>started := True, state := Some (fst (perform (body t) st)), runs := Suc (runs t)\<rparr>)
   \<and> (body t = Set_not_running \<longrightarrow> \<not> is_running (do_run h t st))
   \<and> (body t \<noteq> Set_not_running \<longrightarrow> is_running (do_run h t st) = is_running st)"
  by (cases "body t") (simp_all add: do_run_def)

lemma internal_begin_invoke_frame:
  "name (snd (internal_begin_invoke f b p st)) = name st
   \<and> thread (snd (internal_begin_invoke f b p st)) = thread st
   \<and> is_running (snd (internal_begin_invoke f b p st)) = is_running st
   \<and> next_handle (snd (internal_begin_invoke f b p st)) = Suc (next_handle st)
   \<and> (\<forall>h. h \<noteq> next_handle st \<longrightarrow> heap (snd (internal_begin_invoke f b p st)) h = heap st h)
   \<and> (heap (snd (internal_begin_invoke f b p st)) (next_handle st) = None
       \<or> heap (snd (internal_begin_invoke f b p st)) (next_handle st) =
           Some \<lparr>body = f, started = False, state = None, runs = 0\<rparr>)"
  by (simp add: internal_begin_invoke_def Let_def try_push_def push_def)

text \<open>
  In every state an executor can be in, a task has been entered once if it is marked
  started and never otherwise.
\<close>

lemma at_most_once_step:
  assumes "\<forall>h t. heap st h = Some t \<longrightarrow> runs t = (if started t then 1 else 0)"
  shows "\<forall>h t. heap (after e st) h = Some t \<longrightarrow> runs t = (if started t then 1 else 0)"
proof (rule after_preserves[where P = "\<lambda>s::executor. \<forall>h t. heap s h = Some t \<longrightarrow> runs t = (if started t then 1 else 0)"])
  show "\<forall>h t. heap st h = Some t \<longrightarrow> runs t = (if started t then 1 else 0)" by (rule assms)
next
  fix s :: executor and h t
  assume P: "\<forall>h t. heap s h = Some t \<longrightarrow> runs t = (if started t then 1 else 0)"
    and h: "heap s h = Some t" "\<not> started t"
  have r: "runs t = 0" using P h by simp
  show "\<forall>h' t'. heap (do_run h t s) h' = Some t' \<longrightarrow> runs t' = (if started t' then 1 else 0)"
  proof (intro allI impI)
    fix h' t' assume a: "heap (do_run h t s) h' = Some t'"
    show "runs t' = (if started t' then 1 else 0)"
    proof (cases "h' = h")
      case True
      then show ?thesis using a r do_run_frame[of h t s] by auto
    next
      case False
      then show ?thesis using a P do_run_frame[of h t s] by auto
    qed
  qed
next
  fix s :: executor and f b p
  assume P: "\<forall>h t. heap s h = Some t \<longrightarrow> runs t = (if started t then 1 else 0)"
  show "\<forall>h t. heap (snd (internal_begin_invoke f b p s)) h = Some t \<longrightarrow> runs t = (if started t then 1 else 0)"
  proof (intro allI impI)
    fix h t assume a: "heap (snd (internal_begin_invoke f b p s)) h = Some t"
    show "runs t = (if started t then 1 else 0)"
    proof (cases "h = next_handle s")
      case True
      then show ?thesis using a internal_begin_invoke_frame[of f b p s] by auto
    next
      case False
      then show ?thesis using a P internal_begin_invoke_frame[of f b p s] by auto
    qed
  qed
next
  fix s :: executor and f
  assume "\<forall>h t. heap s h = Some t \<longrightarrow> runs t = (if started t then 1 else 0)"
  then show "\<forall>h t. heap (snd (perform f s)) h = Some t
               \<longrightarrow> runs t = (if started t then 1 else 0)"
    using perform_frame[of f s] by simp
qed (simp_all add: set_capacity_def clear_def)

lemma reachable_at_most_once:
  assumes "reachable st" "heap st h = Some t"
  shows "runs t = (if started t then 1 else 0)"
proof -
  have "\<forall>h t. heap st h = Some t \<longrightarrow> runs t = (if started t then 1 else 0)"
    using assms(1)
  proof (induction rule: reachable.induct)
    case (reachable_new n w)
    show ?case by (simp add: executor_new_def)
  next
    case (reachable_step st e)
    from reachable_step.IH show ?case by (rule at_most_once_step)
  qed
  then show ?thesis using assms(2) by blast
qed

text \<open>An attempt on a started task changes nothing; on a pending one it runs it.\<close>

lemma call_started:
  assumes "heap st h = Some t" "started t"
  shows "call \<lparr>priority = p, func = h\<rparr> st = (None, st)" "wait_callback c h st = (None, st)"
  using assms by (simp_all add: call_def wait_callback_def task_run_def catch_already_started_def)

lemma call_pending:
  assumes "heap st h = Some t" "\<not> started t"
  shows "call \<lparr>priority = p, func = h\<rparr> st = (None, do_run h t st)"
    and "is_current c st \<Longrightarrow> wait_callback c h st = (None, do_run h t st)"
    and "\<not> is_current c st \<Longrightarrow> wait_callback c h st = (None, st)"
  using assms by (simp_all add: call_def wait_callback_def task_run_def catch_already_started_def)

lemma submitted_example_eq: "submitted_example =
  \<lparr>name = ''video'', is_running = True, thread = 0,
   execution_queue = \<lparr>items = [\<lparr>priority = 3, func = 0\<rparr>], waiting = [], channel_capacity = 512\<rparr>,
   heap = [0 \<mapsto> \<lparr>body = Return (Number 7), started = False, state = None, runs = 0\<rparr>], next_handle = 1, log_entries = []\<rparr>"
  by (simp add: submitted_example_def executor_eval channel_eval)

text \<open>The four cases of \<open>get()\<close> on the future of a task.\<close>

lemma shared_state_do_run:
  "shared_state (do_run h t st) h = Some (fst (perform (body t) st))"
  using do_run_frame[of h t st] by (simp add: shared_state_def)

lemma future_get_resolved:
  assumes "heap st h = Some t" "state t = Some r"
  shows "future_get c (Future h) st = (deliver r, st)"
  using assms by (simp add: future_get_def shared_state_def)

lemma future_get_pending_current:
  assumes "heap st h = Some t" "\<not> started t" "state t = None" "is_current c st"
  shows "future_get c (Future h) st = (deliver (fst (perform (body t) st)), do_run h t st)"
  using assms call_pending(2)[OF assms(1,2,4)] shared_state_do_run[of h t st]
  by (simp add: future_get_def shared_state_def)

lemma future_get_started_unresolved:
  assumes "heap st h = Some t" "started t" "state t = None"
  shows "future_get c (Future h) st = (Blocks (Future_wait h), st)"
  using assms call_started(2)[OF assms(1,2), of c]
  by (simp add: future_get_def shared_state_def)

lemma future_get_other_thread:
  assumes "heap st h = Some t" "state t = None" "\<not> is_current c st"
  shows "future_get c (Future h) st = (Blocks (Future_wait h), st)"
  using assms by (simp add: future_get_def shared_state_def wait_callback_def)


lemma full_example_eq: "full_example =
  \<lparr>name = ''video'', is_running = True, thread = 0,
   execution_queue = \<lparr>items = [\<lparr>priority = 3, func = 0\<rparr>], waiting = [], channel_capacity = 1\<rparr>,
   heap = [0 \<mapsto> \<lparr>body = Return (Number 7), started = False, state = None, runs = 0\<rparr>],
   next_handle = 1, log_entries = []\<rparr>"
  by (simp add: full_example_def executor_eval channel_eval)

text \<open>The three ways through \<open>internal_begin_invoke\<close>.\<close>

lemma internal_begin_invoke_full_try:
  assumes "\<not> has_room (execution_queue st)"
  shows "internal_begin_invoke f True p st =
     (Returns Uninitialized,
      st\<lparr>heap := (heap st)(next_handle st := None), next_handle := Suc (next_handle st)\<rparr>)"
  using assms by (simp add: internal_begin_invoke_def Let_def try_push_def)

lemma internal_begin_invoke_full_block:
  assumes "\<not> has_room (execution_queue st)"
  shows "internal_begin_invoke f False p st =
     (Blocks (Push_wait \<lparr>priority = priority_value p, func = next_handle st\<rparr>),
      st\<lparr>heap := (heap st)(next_handle st \<mapsto> \<lparr>body = f, started = False, state = None, runs = 0\<rparr>),
         next_handle := Suc (next_handle st),
         log_entries := log_entries st @ [Debug (print st @ '' Overflow. Blocking caller.'')],
         execution_queue := (execution_queue st)\<lparr>waiting := waiting (execution_queue st)
              @ [\<lparr>priority = priority_value p, func = next_handle st\<rparr>]\<rparr>\<rparr>)"
  using assms by (simp add: internal_begin_invoke_def Let_def try_push_def push_def has_room_def print_def)

lemma internal_begin_invoke_room:
  assumes "has_room (execution_queue st)"
  shows "internal_begin_invoke f b p st =
     (Returns (Future (next_handle st)),
      st\<lparr>heap := (heap st)(next_handle st \<mapsto> \<lparr>body = f, started = False, state = None, runs = 0\<rparr>),
         next_handle := Suc (next_handle st),
         execution_queue := (execution_queue st)\<lparr>items := items (execution_queue st)
              @ [\<lparr>priority = priority_value p, func = next_handle st\<rparr>]\<rparr>\<rparr>)"
  using assms by (simp add: internal_begin_invoke_def Let_def try_push_def has_room_def)

lemma internal_begin_invoke_not_uninitialized:
  "fst (internal_begin_invoke f False p st) \<noteq> Returns Uninitialized"
  by (cases "has_room (execution_queue st)")
     (simp_all add: internal_begin_invoke_room internal_begin_invoke_full_block)

lemma begin_invoke_not_uninitialized: "fst (begin_invoke f p st) \<noteq> Returns Uninitialized"
  using internal_begin_invoke_not_uninitialized[of f p st] by (simp add: begin_invoke_def)

lemma blocked_example_eq: "blocked_example =
  \<lparr>name = ''video'', is_running = True, thread = 0,
   execution_queue = \<lparr>items = [\<lparr>priority = 3, func = 0\<rparr>], waiting = [\<lparr>priority = 4, func = 1\<rparr>], channel_capacity = 1\<rparr>,
   heap = [0 \<mapsto> \<lparr>body = Return (Number 7), started = False, state = None, runs = 0\<rparr>,
           1 \<mapsto> \<lparr>body = Return (Number 8), started = False, state = None, runs = 0\<rparr>],
   next_handle = 2, log_entries = [Debug ''executor[video] Overflow. Blocking caller.'']\<rparr>"
  by (simp add: blocked_example_def full_example_eq executor_eval channel_eval)

text \<open>Nothing sets the running flag again once it is clear.\<close>

lemma not_running_step:
  assumes "\<not> is_running st"
  shows "\<not> is_running (after e st)"
proof (rule after_preserves[where P = "\<lambda>s::executor. \<not> is_running s"])
  show "\<not> is_running st" by (rule assms)
next
  fix s :: executor and h t
  assume "\<not> is_running s"
  then show "\<not> is_running (do_run h t s)" using do_run_frame[of h t s] by blast
next
  fix s :: executor and f b p
  assume "\<not> is_running s"
  then show "\<not> is_running (snd (internal_begin_invoke f b p s))"
    using internal_begin_invoke_frame[of f b p s] by blast
next
  fix s :: executor and f
  assume "\<not> is_running s"
  then show "\<not> is_running (snd (perform f s))" using perform_frame[of f s] by blast
qed (simp_all add: set_capacity_def clear_def)

lemma not_running_after_all:
  "\<not> is_running st \<Longrightarrow> \<not> is_running (after_all evs st)"
  unfolding after_all_def
  by (induction evs arbitrary: st) (simp_all add: not_running_step)

text \<open>
  In every state an executor can be in, a resolved task whose body clears the running
  flag has cleared it.
\<close>

lemma stop_resolved_step:
  assumes "\<forall>h t. heap st h = Some t \<longrightarrow> body t = Set_not_running \<longrightarrow> state t \<noteq> None
             \<longrightarrow> \<not> is_running st"
  shows "\<forall>h t. heap (after e st) h = Some t \<longrightarrow> body t = Set_not_running \<longrightarrow> state t \<noteq> None
             \<longrightarrow> \<not> is_running (after e st)"
proof (rule after_preserves[where P = "\<lambda>s::executor. \<forall>h t. heap s h = Some t \<longrightarrow>
          body t = Set_not_running \<longrightarrow> state t \<noteq> None \<longrightarrow> \<not> is_running s"])
  show "\<forall>h t. heap st h = Some t \<longrightarrow> body t = Set_not_running \<longrightarrow> state t \<noteq> None
             \<longrightarrow> \<not> is_running st" by (rule assms)
next
  fix s :: executor and h t
  assume P: "\<forall>h t. heap s h = Some t \<longrightarrow> body t = Set_not_running \<longrightarrow> state t \<noteq> None
             \<longrightarrow> \<not> is_running s"
    and h: "heap s h = Some t" "\<not> started t"
  show "\<forall>h' t'. heap (do_run h t s) h' = Some t' \<longrightarrow> body t' = Set_not_running
          \<longrightarrow> state t' \<noteq> None \<longrightarrow> \<not> is_running (do_run h t s)"
  proof (intro allI impI)
    fix h' t'
    assume a: "heap (do_run h t s) h' = Some t'" "body t' = Set_not_running" "state t' \<noteq> None"
    show "\<not> is_running (do_run h t s)"
    proof (cases "h' = h")
      case True
      then have "body t = Set_not_running" using a do_run_frame[of h t s] by auto
      then show ?thesis using do_run_frame[of h t s] by simp
    next
      case False
      then have "heap s h' = Some t'" using a do_run_frame[of h t s] by simp
      then have "\<not> is_running s" using P a by blast
      then show ?thesis using do_run_frame[of h t s] by blast
    qed
  qed
next
  fix s :: executor and f b p
  assume P: "\<forall>h t. heap s h = Some t \<longrightarrow> body t = Set_not_running \<longrightarrow> state t \<noteq> None
             \<longrightarrow> \<not> is_running s"
  show "\<forall>h t. heap (snd (internal_begin_invoke f b p s)) h = Some t \<longrightarrow> body t = Set_not_running
          \<longrightarrow> state t \<noteq> None \<longrightarrow> \<not> is_running (snd (internal_begin_invoke f b p s))"
  proof (intro allI impI)
    fix h t
    assume a: "heap (snd (internal_begin_invoke f b p s)) h = Some t" "body t = Set_not_running"
      "state t \<noteq> None"
    have "h \<noteq> next_handle s" using a internal_begin_invoke_frame[of f b p s] by auto
    then have "heap s h = Some t" using a internal_begin_invoke_frame[of f b p s] by simp
    then show "\<not> is_running (snd (internal_begin_invoke f b p s))"
      using P a internal_begin_invoke_frame[of f b p s] by auto
  qed
next
  fix s :: executor and f
  assume P: "\<forall>h t. heap s h = Some t \<longrightarrow> body t = Set_not_running \<longrightarrow> state t \<noteq> None
             \<longrightarrow> \<not> is_running s"
  show "\<forall>h t. heap (snd (perform f s)) h = Some t \<longrightarrow> body t = Set_not_running
          \<longrightarrow> state t \<noteq> None \<longrightarrow> \<not> is_running (snd (perform f s))"
    using P perform_frame[of f s] by auto
qed (simp_all add: set_capacity_def clear_def)

lemma reachable_stop_resolved:
  assumes "reachable st" "heap st h = Some t" "body t = Set_not_running" "state t \<noteq> None"
  shows "\<not> is_running st"
proof -
  have "\<forall>h t. heap st h = Some t \<longrightarrow> body t = Set_not_running \<longrightarrow> state t \<noteq> None
             \<longrightarrow> \<not> is_running st"
    using assms(1)
  proof (induction rule: reachable.induct)
    case (reachable_new n w)
    show ?case by (simp add: executor_new_def)
  next
    case (reachable_step st e)
    from reachable_step.IH show ?case by (rule stop_resolved_step)
  qed
  then show ?thesis using assms(2-4) by blast
qed

lemma not_running_submission:
  assumes "\<not> is_running st"
  shows "begin_invoke f p st
           = (Throws (Invalid_operation ''executor not running.'' (Some (name st))), st)"
    and "try_begin_invoke f p st = (Throws (Invalid_operation ''executor not running.'' None), st)"
    and "\<not> is_current c st \<Longrightarrow> invoke c f p st
           = (Throws (Invalid_operation ''executor not running.'' (Some (name st))), st)"
  using assms by (simp_all add: begin_invoke_def try_begin_invoke_def invoke_def)

lemma invoke_current:
  assumes "is_current c st"
  shows "invoke c f p st = (deliver (fst (perform f st)), snd (perform f st))"
  using assms by (cases "perform f st") (simp add: invoke_def)

lemma not_running_worker:
  assumes "\<not> is_running st"
  shows "after (Worker_pass i) st = st"
  using assms by simp

lemma not_running_run:
  assumes "run st st'" "\<not> is_running st"
  shows "st' = st"
  using assms by (cases rule: run.cases) simp_all

text \<open>
  \<open>stop()\<close> returns at once only on the worker thread, having cleared the flag; a
  caller on another thread is blocked on the future of its task, and its \<open>get()\<close>
  returns only when the task has run.
\<close>

lemma stop_returns:
  assumes "stop c st0 = (Returns v, st)"
  shows "\<not> is_running st"
proof (cases "is_current c st0")
  case True
  then show ?thesis using assms by (auto simp: stop_def invoke_def)
next
  case nc: False
  have inv: "stop c st0 =
      (case begin_invoke Set_not_running normal_priority st0 of
         (Returns fut, st') \<Rightarrow> future_get c fut st'
       | (Throws e, st') \<Rightarrow> (Throws e, st')
       | (Blocks w, st') \<Rightarrow> (Blocks w, st'))"
    using nc by (simp add: stop_def invoke_def)
  show ?thesis
  proof (cases "is_running st0")
    case False
    then have "fst (stop c st0) \<noteq> Returns v"
      unfolding inv by (simp add: begin_invoke_def)
    then show ?thesis using assms by simp
  next
    case r: True
    show ?thesis
    proof (cases "has_room (execution_queue st0)")
      case True
      define s1 where "s1 = snd (internal_begin_invoke Set_not_running False normal_priority st0)"
      have b: "begin_invoke Set_not_running normal_priority st0 = (Returns (Future (next_handle st0)), s1)"
        using r by (simp add: begin_invoke_def s1_def internal_begin_invoke_room[OF True])
      have h: "heap s1 (next_handle st0)
          = Some \<lparr>body = Set_not_running, started = False, state = None, runs = 0\<rparr>"
        by (simp add: s1_def internal_begin_invoke_room[OF True])
      have c: "\<not> is_current c s1"
        using nc by (simp add: s1_def is_current_def internal_begin_invoke_frame)
      have "future_get c (Future (next_handle st0)) s1 = (Blocks (Future_wait (next_handle st0)), s1)"
        using future_get_other_thread[OF h _ c] by simp
      then have "fst (stop c st0) \<noteq> Returns v" unfolding inv b by simp
      then show ?thesis using assms by simp
    next
      case False
      have "fst (stop c st0) \<noteq> Returns v"
        unfolding inv using r by (simp add: begin_invoke_def internal_begin_invoke_full_block[OF False])
      then show ?thesis using assms by simp
    qed
  qed
qed

lemma stop_task_get_returns:
  assumes "reachable st0" "heap st0 h = Some t" "body t = Set_not_running"
    and "future_get c (Future h) st0 = (Returns v, st)"
  shows "\<not> is_running st"
proof (cases "state t")
  case (Some r)
  then have "st = st0" using assms(2,4) future_get_resolved by simp
  moreover have "\<not> is_running st0" using reachable_stop_resolved[OF assms(1-3)] Some by simp
  ultimately show ?thesis by simp
next
  case None
  show ?thesis
  proof (cases "started t")
    case True
    then show ?thesis using assms(4) future_get_started_unresolved[OF assms(2) True None, of c] by simp
  next
    case ns: False
    show ?thesis
    proof (cases "is_current c st0")
      case True
      then have "st = do_run h t st0"
        using assms(4) future_get_pending_current[OF assms(2) ns None True] by simp
      then show ?thesis using assms(3) do_run_frame[of h t st0] by simp
    next
      case False
      then show ?thesis using assms(4) future_get_other_thread[OF assms(2) None False] by simp
    qed
  qed
qed

lemma reachable_after_all: "reachable st \<Longrightarrow> reachable (after_all evs st)"
  unfolding after_all_def
  by (induction evs arbitrary: st) (simp_all add: reachable_step)

lemma reachable_new_example: "reachable new_example"
  unfolding new_example_def by (rule reachable_new)

lemma reachable_submitted_example: "reachable submitted_example"
  unfolding submitted_example_def by (intro reachable_step reachable_new_example)

lemma reachable_abandoned_example: "reachable abandoned_example"
  unfolding abandoned_example_def by (intro reachable_after_all reachable_new_example)

lemma stopped_example_eq: "stopped_example =
  \<lparr>name = ''video'', is_running = False, thread = 0,
   execution_queue = \<lparr>items = [\<lparr>priority = 3, func = 0\<rparr>], waiting = [],
                      channel_capacity = 512\<rparr>,
   heap = [0 \<mapsto> \<lparr>body = Return (Number 7), started = False, state = None, runs = 0\<rparr>],
   next_handle = 1, log_entries = []\<rparr>"
  by (simp add: stopped_example_def submitted_example_eq executor_eval)

lemma abandoned_example_eq: "abandoned_example =
  \<lparr>name = ''video'', is_running = False, thread = 0,
   execution_queue = \<lparr>items = [\<lparr>priority = 2, func = 0\<rparr>], waiting = [],
                      channel_capacity = 512\<rparr>,
   heap = [0 \<mapsto> \<lparr>body = Return (Number 7), started = False, state = None, runs = 0\<rparr>,
           1 \<mapsto> \<lparr>body = Set_not_running, started = True, state = Some (Inr Void),
                  runs = 1\<rparr>],
   next_handle = 2, log_entries = []\<rparr>"
  by (simp add: abandoned_example_def executor_eval channel_eval)





text \<open>What was in the channel is what has been taken out or is still in it.\<close>

lemma try_pop_items_cover:
  assumes "try_pop i ch = Some (x, ch')"
  shows "set (items ch) \<subseteq> insert x (set (items ch'))"
proof -
  obtain k where k: "k < length (items ch)" "x = items ch ! k"
    "items ch' = take k (items ch) @ drop (Suc k) (items ch)"
    using try_pop_Some[OF assms] by blast
  have "items ch = take k (items ch) @ items ch ! k # drop (Suc k) (items ch)"
    using k(1) by (rule id_take_nth_drop)
  then have "set (items ch) = set (take k (items ch) @ items ch ! k # drop (Suc k) (items ch))"
    by simp
  then show ?thesis using k(2,3) by auto
qed

lemma waiting_example_eq: "waiting_example =
  \<lparr>name = ''video'', is_running = True, thread = 0,
   execution_queue = \<lparr>items = [\<lparr>priority = 3, func = 0\<rparr>, \<lparr>priority = 0, func = 1\<rparr>],
                      waiting = [], channel_capacity = 512\<rparr>,
   heap = [0 \<mapsto> \<lparr>body = Return (Number 7), started = False, state = None, runs = 0\<rparr>,
           1 \<mapsto> \<lparr>body = Return Void, started = False, state = None, runs = 0\<rparr>],
   next_handle = 2, log_entries = []\<rparr>"
  by (simp add: waiting_example_def submitted_example_eq executor_eval channel_eval)



text \<open>Every state an executor can be in is well formed.\<close>

lemma distinct_remove_nth:
  assumes "distinct (xs @ ys)"
  shows "distinct ((take k xs @ drop (Suc k) xs) @ ys)"
proof -
  have d: "distinct xs" "distinct ys" "set xs \<inter> set ys = {}" using assms by auto
  have "set (take k xs) \<inter> set (drop (Suc k) xs) = {}"
    using d(1) by (intro set_take_disj_set_drop_if_distinct) simp_all
  moreover have "set (take k xs) \<subseteq> set xs" "set (drop (Suc k) xs) \<subseteq> set xs"
    by (rule set_take_subset, rule set_drop_subset)
  moreover have "distinct (take k xs)" "distinct (drop (Suc k) xs)"
    using d(1) by simp_all
  ultimately show ?thesis using d by auto
qed

lemma well_formed_same:
  assumes "well_formed st" "handles st' = handles st" "next_handle st' = next_handle st"
  shows "well_formed st'"
  using assms by (simp add: well_formed_def)

lemma well_formed_popped:
  assumes "well_formed st" "try_pop i (execution_queue st) = Some (x, q)"
  shows "well_formed (st\<lparr>execution_queue := q\<rparr>)"
proof -
  obtain k where k: "items q = take k (items (execution_queue st)) @ drop (Suc k) (items (execution_queue st))"
    and w: "waiting q = waiting (execution_queue st)"
    using try_pop_Some[OF assms(2)] by blast
  define hs where "hs = map func (items (execution_queue st))"
  define ws where "ws = map func (waiting (execution_queue st))"
  have h: "handles st = hs @ ws" by (simp add: handles_def hs_def ws_def)
  have h': "handles (st\<lparr>execution_queue := q\<rparr>) = (take k hs @ drop (Suc k) hs) @ ws"
    by (simp add: handles_def hs_def ws_def k w take_map drop_map)
  have "distinct ((take k hs @ drop (Suc k) hs) @ ws)"
    using assms(1) h by (intro distinct_remove_nth) (simp add: well_formed_def)
  moreover have "set ((take k hs @ drop (Suc k) hs) @ ws) \<subseteq> set (hs @ ws)"
    using set_take_subset[of k hs] set_drop_subset[of "Suc k" hs] by auto
  ultimately show ?thesis using assms(1) h h'
    by (auto simp: well_formed_def list_all_iff)
qed


lemma well_formed_intro:
  assumes "distinct (handles st)" "\<forall>h \<in> set (handles st). h < next_handle st"
  shows "well_formed st"
  using assms by (simp add: well_formed_def list_all_iff)

lemma well_formed_elim:
  assumes "well_formed st"
  shows "distinct (handles st)" "\<forall>h \<in> set (handles st). h < next_handle st"
  using assms by (simp_all add: well_formed_def list_all_iff)

lemma well_formed_admit:
  assumes "well_formed st"
  shows "well_formed (st\<lparr>execution_queue := admit k (execution_queue st)\<rparr>)"
proof (cases "k < length (waiting (execution_queue st)) \<and> has_room (execution_queue st)")
  case False
  then have "admit k (execution_queue st) = execution_queue st" by (auto simp: admit_def)
  then show ?thesis using assms by simp
next
  case True
  define xs where "xs = map func (items (execution_queue st))"
  define ws where "ws = map func (waiting (execution_queue st))"
  have kl: "k < length ws" using True by (simp add: ws_def)
  have ws: "ws = take k ws @ ws ! k # drop (Suc k) ws"
    using kl by (rule id_take_nth_drop)
  have h: "handles st = xs @ ws" by (simp add: handles_def xs_def ws_def)
  have h': "handles (st\<lparr>execution_queue := admit k (execution_queue st)\<rparr>)
      = xs @ ws ! k # take k ws @ drop (Suc k) ws"
    using True by (simp add: handles_def admit_def xs_def ws_def take_map drop_map)
  have d: "distinct (xs @ take k ws @ ws ! k # drop (Suc k) ws)"
    using well_formed_elim(1)[OF assms] h ws by simp
  have s: "set (xs @ ws ! k # take k ws @ drop (Suc k) ws) = set (xs @ ws)"
  proof -
    have "set ws = set (take k ws @ ws ! k # drop (Suc k) ws)" using ws by simp
    then show ?thesis by auto
  qed
  have "distinct (xs @ ws ! k # take k ws @ drop (Suc k) ws)"
    using d by auto
  moreover have "\<forall>h \<in> set (xs @ ws ! k # take k ws @ drop (Suc k) ws). h < next_handle st"
    using well_formed_elim(2)[OF assms] unfolding s h by simp
  ultimately show ?thesis unfolding h'[symmetric] by (intro well_formed_intro) simp_all
qed

lemma well_formed_submit:
  assumes "well_formed st"
  shows "well_formed (snd (internal_begin_invoke f b p st))"
proof -
  have fresh: "next_handle st \<notin> set (handles st)"
    using well_formed_elim(2)[OF assms] by auto
  have old: "\<forall>h \<in> set (handles st). h < Suc (next_handle st)"
    using well_formed_elim(2)[OF assms] by auto
  have d: "distinct (handles st)" by (rule well_formed_elim(1)[OF assms])
  define xs where "xs = map func (items (execution_queue st))"
  define ws where "ws = map func (waiting (execution_queue st))"
  have h: "handles st = xs @ ws" by (simp add: handles_def xs_def ws_def)
  show ?thesis
  proof (cases "has_room (execution_queue st)")
    case True
    have h': "handles (snd (internal_begin_invoke f b p st)) = xs @ next_handle st # ws"
      by (simp add: internal_begin_invoke_room[OF True] handles_def xs_def ws_def)
    have n: "next_handle (snd (internal_begin_invoke f b p st)) = Suc (next_handle st)"
      by (simp add: internal_begin_invoke_frame)
    show ?thesis
    proof (rule well_formed_intro)
      show "distinct (handles (snd (internal_begin_invoke f b p st)))"
        unfolding h' using d fresh unfolding h by auto
      show "\<forall>h\<in>set (handles (snd (internal_begin_invoke f b p st))).
          h < next_handle (snd (internal_begin_invoke f b p st))"
        unfolding h' n using old unfolding h by auto
    qed
  next
    case False
    show ?thesis
    proof (cases b)
      case True
      have h': "handles (snd (internal_begin_invoke f b p st)) = xs @ ws"
        using True by (simp add: internal_begin_invoke_full_try[OF False] handles_def xs_def ws_def)
      have n: "next_handle (snd (internal_begin_invoke f b p st)) = Suc (next_handle st)"
        by (simp add: internal_begin_invoke_frame)
      show ?thesis
      proof (rule well_formed_intro)
        show "distinct (handles (snd (internal_begin_invoke f b p st)))"
          unfolding h' using d unfolding h by simp
        show "\<forall>h\<in>set (handles (snd (internal_begin_invoke f b p st))).
            h < next_handle (snd (internal_begin_invoke f b p st))"
          unfolding h' n using old unfolding h by simp
      qed
    next
      case nt: False
      have h': "handles (snd (internal_begin_invoke f b p st)) = xs @ ws @ [next_handle st]"
        using nt by (simp add: internal_begin_invoke_full_block[OF False] handles_def xs_def ws_def)
      have n: "next_handle (snd (internal_begin_invoke f b p st)) = Suc (next_handle st)"
        by (simp add: internal_begin_invoke_frame)
      show ?thesis
      proof (rule well_formed_intro)
        show "distinct (handles (snd (internal_begin_invoke f b p st)))"
          unfolding h' using d fresh unfolding h by auto
        show "\<forall>h\<in>set (handles (snd (internal_begin_invoke f b p st))).
            h < next_handle (snd (internal_begin_invoke f b p st))"
          unfolding h' n using old unfolding h by auto
      qed
    qed
  qed
qed

lemma do_run_queue:
  "execution_queue (do_run h t st) = execution_queue st"
  "next_handle (do_run h t st) = next_handle st"
  using do_run_frame[of h t st] by blast+

lemma perform_queue:
  "execution_queue (snd (perform f st)) = execution_queue st"
  "next_handle (snd (perform f st)) = next_handle st"
  "heap (snd (perform f st)) = heap st"
  using perform_frame[of f st] by blast+

lemma well_formed_step:
  assumes "well_formed st"
  shows "well_formed (after e st)"
proof (rule after_preserves[where P = well_formed])
  show "well_formed st" by (rule assms)
next
  fix s :: executor and h t
  assume "well_formed s"
  then show "well_formed (do_run h t s)"
    by (rule well_formed_same) (simp_all add: handles_def do_run_queue)
next
  fix s :: executor and f b p
  assume "well_formed s"
  then show "well_formed (snd (internal_begin_invoke f b p s))" by (rule well_formed_submit)
next
  fix s :: executor and f
  assume "well_formed s"
  then show "well_formed (snd (perform f s))"
    by (rule well_formed_same) (simp_all add: handles_def perform_queue)
next
  fix s :: executor and i x q
  assume "well_formed s" "try_pop i (execution_queue s) = Some (x, q)"
  then show "well_formed (s\<lparr>execution_queue := q\<rparr>)" by (rule well_formed_popped)
next
  fix s :: executor and n
  assume "well_formed s"
  then show "well_formed (set_capacity n s)"
    by (simp add: well_formed_def handles_def set_capacity_def)
next
  fix s :: executor
  assume "well_formed s"
  then show "well_formed (clear s)"
    by (simp add: well_formed_def handles_def clear_def)
next
  fix s :: executor and k
  assume "well_formed s"
  then show "well_formed (s\<lparr>execution_queue := admit k (execution_queue s)\<rparr>)"
    by (rule well_formed_admit)
next
  fix s :: executor and l
  assume "well_formed s"
  then show "well_formed (s\<lparr>log_entries := l\<rparr>)"
    by (simp add: well_formed_def handles_def)
qed

lemma reachable_well_formed:
  assumes "reachable st"
  shows "well_formed st"
  using assms
proof (induction rule: reachable.induct)
  case (reachable_new n w)
  show ?case by (simp add: executor_new_def well_formed_def handles_def)
next
  case (reachable_step st e)
  from reachable_step.IH show ?case by (rule well_formed_step)
qed

text \<open>
  In every state an executor can be in, each entry in the channel, and each entry waiting
  to get in, refers to a task that exists: \<open>task_run\<close> never meets a freed task.
\<close>

lemma handles_popped:
  assumes "try_pop i (execution_queue st) = Some (x, q)"
  shows "set (handles (st\<lparr>execution_queue := q\<rparr>)) \<subseteq> set (handles st)"
proof -
  have "set (items q) \<subseteq> set (items (execution_queue st))"
    using assms by (rule try_pop_items_subset)
  moreover have "waiting q = waiting (execution_queue st)"
    using try_pop_Some[OF assms] by blast
  ultimately show ?thesis by (auto simp: handles_def)
qed

lemma handles_admit:
  "set (handles (st\<lparr>execution_queue := admit k (execution_queue st)\<rparr>)) \<subseteq> set (handles st)"
proof (cases "k < length (waiting (execution_queue st)) \<and> has_room (execution_queue st)")
  case False
  then have "admit k (execution_queue st) = execution_queue st" by (auto simp: admit_def)
  then show ?thesis by simp
next
  case True
  then have "waiting (execution_queue st) ! k \<in> set (waiting (execution_queue st))" by simp
  then show ?thesis using True
    by (auto simp: handles_def admit_def dest: in_set_takeD in_set_dropD)
qed

lemma allocated_step:
  assumes "well_formed st \<and> (\<forall>h \<in> set (handles st). heap st h \<noteq> None)"
  shows "well_formed (after e st) \<and> (\<forall>h \<in> set (handles (after e st)). heap (after e st) h \<noteq> None)"
proof (rule after_preserves[where P = "\<lambda>s::executor.
          well_formed s \<and> (\<forall>h \<in> set (handles s). heap s h \<noteq> None)"])
  show "well_formed st \<and> (\<forall>h \<in> set (handles st). heap st h \<noteq> None)" by (rule assms)
next
  fix s :: executor and h t
  assume P: "well_formed s \<and> (\<forall>h \<in> set (handles s). heap s h \<noteq> None)"
    and h: "heap s h = Some t" "\<not> started t"
  have hs: "handles (do_run h t s) = handles s" by (simp add: handles_def do_run_queue)
  have "well_formed (do_run h t s)"
    by (rule well_formed_same[of s]) (simp_all add: P hs do_run_queue)
  moreover have "heap (do_run h t s) h' \<noteq> None" if "heap s h' \<noteq> None" for h'
    using that do_run_frame[of h t s] by (cases "h' = h") auto
  ultimately show "well_formed (do_run h t s)
      \<and> (\<forall>h' \<in> set (handles (do_run h t s)). heap (do_run h t s) h' \<noteq> None)"
    using P hs by simp
next
  fix s :: executor and f b p
  assume P: "well_formed s \<and> (\<forall>h \<in> set (handles s). heap s h \<noteq> None)"
  let ?s' = "snd (internal_begin_invoke f b p s)"
  have fresh: "next_handle s \<notin> set (handles s)"
    using well_formed_elim(2)[of s] P by auto
  have "\<forall>h \<in> set (handles ?s'). heap ?s' h \<noteq> None"
  proof (cases "has_room (execution_queue s)")
    case True
    then show ?thesis using P by (auto simp: internal_begin_invoke_room handles_def)
  next
    case False
    then show ?thesis using P fresh
      by (cases b) (auto simp: internal_begin_invoke_full_try internal_begin_invoke_full_block
          handles_def)
  qed
  then show "well_formed ?s' \<and> (\<forall>h \<in> set (handles ?s'). heap ?s' h \<noteq> None)"
    using P well_formed_submit by blast
next
  fix s :: executor and f
  assume P: "well_formed s \<and> (\<forall>h \<in> set (handles s). heap s h \<noteq> None)"
  have "handles (snd (perform f s)) = handles s" by (simp add: handles_def perform_queue)
  moreover have "well_formed (snd (perform f s))"
    by (rule well_formed_same[of s]) (simp_all add: P handles_def perform_queue)
  ultimately show "well_formed (snd (perform f s))
      \<and> (\<forall>h \<in> set (handles (snd (perform f s))). heap (snd (perform f s)) h \<noteq> None)"
    using P by (simp add: perform_queue)
next
  fix s :: executor and i x q
  assume P: "well_formed s \<and> (\<forall>h \<in> set (handles s). heap s h \<noteq> None)"
    and p: "try_pop i (execution_queue s) = Some (x, q)"
  show "well_formed (s\<lparr>execution_queue := q\<rparr>)
      \<and> (\<forall>h \<in> set (handles (s\<lparr>execution_queue := q\<rparr>)). heap (s\<lparr>execution_queue := q\<rparr>) h \<noteq> None)"
    using P well_formed_popped[OF _ p] handles_popped[OF p] by auto
next
  fix s :: executor and n
  assume "well_formed s \<and> (\<forall>h \<in> set (handles s). heap s h \<noteq> None)"
  then show "well_formed (set_capacity n s)
      \<and> (\<forall>h \<in> set (handles (set_capacity n s)). heap (set_capacity n s) h \<noteq> None)"
    by (simp add: well_formed_def handles_def set_capacity_def)
next
  fix s :: executor
  assume "well_formed s \<and> (\<forall>h \<in> set (handles s). heap s h \<noteq> None)"
  then show "well_formed (clear s) \<and> (\<forall>h \<in> set (handles (clear s)). heap (clear s) h \<noteq> None)"
    by (simp add: well_formed_def handles_def clear_def)
next
  fix s :: executor and k
  assume P: "well_formed s \<and> (\<forall>h \<in> set (handles s). heap s h \<noteq> None)"
  let ?s' = "s\<lparr>execution_queue := admit k (execution_queue s)\<rparr>"
  show "well_formed ?s' \<and> (\<forall>h \<in> set (handles ?s'). heap ?s' h \<noteq> None)"
    using P well_formed_admit[where st = s and k = k] handles_admit[where st = s and k = k]
    by auto
next
  fix s :: executor and l
  assume "well_formed s \<and> (\<forall>h \<in> set (handles s). heap s h \<noteq> None)"
  then show "well_formed (s\<lparr>log_entries := l\<rparr>)
      \<and> (\<forall>h \<in> set (handles (s\<lparr>log_entries := l\<rparr>)). heap (s\<lparr>log_entries := l\<rparr>) h \<noteq> None)"
    by (simp add: well_formed_def handles_def)
qed

lemma reachable_handles_allocated:
  assumes "reachable st" "h \<in> set (handles st)"
  shows "heap st h \<noteq> None"
proof -
  have "well_formed st \<and> (\<forall>h \<in> set (handles st). heap st h \<noteq> None)"
    using assms(1)
  proof (induction rule: reachable.induct)
    case (reachable_new n w)
    show ?case by (simp add: executor_new_def well_formed_def handles_def)
  next
    case (reachable_step st e)
    from reachable_step.IH show ?case by (rule allocated_step)
  qed
  then show ?thesis using assms(2) by blast
qed

text \<open>
  The worker loop with a pending shutdown task in the channel: each pass takes an entry
  at least as high as the shutdown task, so lower entries and their tasks stay as they
  are, and the loop ends.
\<close>

lemma run_iteration_Some:
  assumes "run_iteration i st = Some st1"
  shows "\<exists>x q. try_pop i (execution_queue st) = Some (x, q)
           \<and> st1 = snd (call x (st\<lparr>execution_queue := q\<rparr>))"
proof (cases "try_pop i (execution_queue st)")
  case None
  then show ?thesis using assms by (simp add: run_iteration_def pop_def)
next
  case (Some r)
  obtain x q where r: "r = (x, q)" by (cases r)
  obtain e s' where c: "call x (st\<lparr>execution_queue := q\<rparr>) = (e, s')"
    by (cases "call x (st\<lparr>execution_queue := q\<rparr>)")
  have "e = None" using fst_call[of x "st\<lparr>execution_queue := q\<rparr>"] c by simp
  then show ?thesis using assms Some r c by (simp add: run_iteration_def pop_def)
qed

lemma run_iteration_nonempty:
  assumes "items (execution_queue st) \<noteq> []"
  shows "\<exists>st1. run_iteration i st = Some st1"
proof -
  obtain r where "try_pop i (execution_queue st) = Some r"
    using assms try_pop_None[of i "execution_queue st"] by (cases "try_pop i (execution_queue st)") auto
  then show ?thesis
    by (cases r) (auto simp: run_iteration_def pop_def split: prod.splits option.splits)
qed

lemma distinct_func:
  assumes "well_formed st" "x \<in> set (items (execution_queue st))"
    "y \<in> set (items (execution_queue st))" "x \<noteq> y"
  shows "func x \<noteq> func y"
proof -
  have "distinct (map func (items (execution_queue st)))"
    using well_formed_elim(1)[OF assms(1)] by (simp add: handles_def)
  then have inj: "inj_on func (set (items (execution_queue st)))" by (simp add: distinct_map)
  show ?thesis
  proof
    assume "func x = func y"
    with inj have "x = y" using assms(2,3) by (rule inj_onD)
    then show False using assms(4) by simp
  qed
qed

lemma worker_step:
  assumes wf: "well_formed st" and r: "is_running st"
    and sd: "sd \<in> set (items (execution_queue st))" "heap st (func sd) = Some t"
      "\<not> started t" "body t = Set_not_running"
    and it: "run_iteration i st = Some st1"
  shows "well_formed st1"
    and "is_running st1 \<longrightarrow> sd \<in> set (items (execution_queue st1)) \<and> heap st1 (func sd) = Some t"
    and "length (items (execution_queue st1)) < length (items (execution_queue st))"
    and "\<forall>pf \<in> set (items (execution_queue st)). priority pf < priority sd \<longrightarrow>
           pf \<in> set (items (execution_queue st1)) \<and> heap st1 (func pf) = heap st (func pf)"
proof -
  obtain x q where p: "try_pop i (execution_queue st) = Some (x, q)"
    and st1: "st1 = snd (call x (st\<lparr>execution_queue := q\<rparr>))"
    using run_iteration_Some[OF it] by blast
  define s where "s = st\<lparr>execution_queue := q\<rparr>"
  have x: "x \<in> set (items (execution_queue st))"
    and top: "\<forall>y \<in> set (items (execution_queue st)). priority y \<le> priority x"
    using try_pop_Some[OF p] by blast+
  obtain k where k: "k < length (items (execution_queue st))"
    "items q = take k (items (execution_queue st)) @ drop (Suc k) (items (execution_queue st))"
    using try_pop_Some[OF p] by blast
  have cover: "set (items (execution_queue st)) \<subseteq> insert x (set (items q))"
    using p by (rule try_pop_items_cover)
  have "after (Worker_pass i) st = st1" using r it by simp
  then show "well_formed st1" using well_formed_step[OF wf, of "Worker_pass i"] by simp
  have cs: "st1 = s \<or> (\<exists>t'. st1 = do_run (func x) t' s)"
    using call_state[of x s] unfolding st1 s_def[symmetric] by blast
  have q1: "execution_queue st1 = q"
  proof -
    have "execution_queue st1 = execution_queue s"
      using cs do_run_queue(1) by metis
    then show ?thesis by (simp add: s_def)
  qed
  show "length (items (execution_queue st1)) < length (items (execution_queue st))"
    unfolding q1 using k by simp
  have hp: "heap st1 h = heap st h" if "h \<noteq> func x" for h
  proof -
    have "heap (do_run (func x) t' s) h = heap s h" for t'
      using do_run_frame[of "func x" t' s] that by blast
    then have "heap st1 h = heap s h" using cs by metis
    then show ?thesis by (simp add: s_def)
  qed
  show "is_running st1 \<longrightarrow> sd \<in> set (items (execution_queue st1)) \<and> heap st1 (func sd) = Some t"
  proof
    assume r1: "is_running st1"
    have ne: "x \<noteq> sd"
    proof
      assume "x = sd"
      then have "heap s (func x) = Some t" using sd(2) by (simp add: s_def)
      then have "call \<lparr>priority = priority x, func = func x\<rparr> s = (None, do_run (func x) t s)"
        using sd(3) by (rule call_pending(1))
      then have "st1 = do_run (func x) t s" unfolding st1 s_def[symmetric] by (simp add: call_def)
      then have "\<not> is_running st1" using sd(4) do_run_frame[of "func x" t s] by simp
      then show False using r1 by simp
    qed
    have "func x \<noteq> func sd" using distinct_func[OF wf x sd(1) ne] .
    then have "heap st1 (func sd) = Some t" using hp[of "func sd"] sd(2) by simp
    moreover have "sd \<in> set (items q)" using cover sd(1) ne by auto
    ultimately show "sd \<in> set (items (execution_queue st1)) \<and> heap st1 (func sd) = Some t"
      unfolding q1 by simp
  qed
  show "\<forall>pf \<in> set (items (execution_queue st)). priority pf < priority sd \<longrightarrow>
           pf \<in> set (items (execution_queue st1)) \<and> heap st1 (func pf) = heap st (func pf)"
  proof (intro ballI impI)
    fix pf assume pf: "pf \<in> set (items (execution_queue st))" "priority pf < priority sd"
    have "priority sd \<le> priority x" using top sd(1) by blast
    then have ne: "x \<noteq> pf" using pf(2) by auto
    have "func x \<noteq> func pf" using distinct_func[OF wf x pf(1) ne] .
    then have "heap st1 (func pf) = heap st (func pf)" using hp[of "func pf"] by simp
    moreover have "pf \<in> set (items q)" using cover pf(1) ne by auto
    ultimately show "pf \<in> set (items (execution_queue st1)) \<and> heap st1 (func pf) = heap st (func pf)"
      unfolding q1 by simp
  qed
qed

lemma run_abandons_low:
  assumes "run st st'" "well_formed st"
    and "is_running st \<longrightarrow> sd \<in> set (items (execution_queue st)) \<and> heap st (func sd) = Some t"
    and "\<not> started t" "body t = Set_not_running"
    and "pf \<in> set (items (execution_queue st))" "priority pf < priority sd"
  shows "\<not> is_running st' \<and> pf \<in> set (items (execution_queue st'))
       \<and> heap st' (func pf) = heap st (func pf)"
  using assms
proof (induction rule: run.induct)
  case (run_exit st)
  then show ?case by simp
next
  case (run_loop st i st1 st')
  have sd: "sd \<in> set (items (execution_queue st))" "heap st (func sd) = Some t"
    using run_loop.prems(2) run_loop.hyps(1) by simp_all
  note ws = worker_step[OF run_loop.prems(1) run_loop.hyps(1) sd run_loop.prems(3,4) run_loop.hyps(2)]
  have pf1: "pf \<in> set (items (execution_queue st1))" "heap st1 (func pf) = heap st (func pf)"
    using ws(4) run_loop.prems(5,6) by blast+
  from run_loop.IH[OF ws(1) ws(2) run_loop.prems(3,4) pf1(1) run_loop.prems(6)] pf1(2)
  show ?case by simp
qed

lemma run_terminates:
  assumes "well_formed st"
    and "is_running st \<longrightarrow> sd \<in> set (items (execution_queue st)) \<and> heap st (func sd) = Some t"
    and "\<not> started t" "body t = Set_not_running"
  shows "\<exists>st'. run st st'"
  using assms
proof (induction "length (items (execution_queue st))" arbitrary: st rule: less_induct)
  case less
  show ?case
  proof (cases "is_running st")
    case False
    then have "run st st" by (rule run_exit)
    then show ?thesis ..
  next
    case True
    have sd: "sd \<in> set (items (execution_queue st))" "heap st (func sd) = Some t"
      using less.prems(2) True by simp_all
    then have "items (execution_queue st) \<noteq> []" by auto
    then obtain st1 where it: "run_iteration 0 st = Some st1"
      using run_iteration_nonempty by blast
    note ws = worker_step[OF less.prems(1) True sd less.prems(3,4) it]
    obtain st' where r1: "run st1 st'"
      using less.hyps[OF ws(3) ws(1) ws(2) less.prems(3,4)] by blast
    from True it r1 have "run st st'" by (rule run_loop)
    then show ?thesis ..
  qed
qed

lemma destroying_example_eq: "destroying_example =
  \<lparr>name = ''video'', is_running = True, thread = 0,
   execution_queue = \<lparr>items = [\<lparr>priority = 2, func = 0\<rparr>, \<lparr>priority = 3, func = 1\<rparr>],
                      waiting = [], channel_capacity = 512\<rparr>,
   heap = [0 \<mapsto> \<lparr>body = Return (Number 7), started = False, state = None, runs = 0\<rparr>,
           1 \<mapsto> \<lparr>body = Set_not_running, started = False, state = None, runs = 0\<rparr>],
   next_handle = 2, log_entries = []\<rparr>"
  by (simp add: destroying_example_def executor_eval channel_eval)

lemma destroyed_example_eq: "destroyed_example =
  \<lparr>name = ''video'', is_running = False, thread = 0,
   execution_queue = \<lparr>items = [\<lparr>priority = 2, func = 0\<rparr>], waiting = [],
                      channel_capacity = 512\<rparr>,
   heap = [0 \<mapsto> \<lparr>body = Return (Number 7), started = False, state = None, runs = 0\<rparr>,
           1 \<mapsto> \<lparr>body = Set_not_running, started = True, state = Some (Inr Void),
                  runs = 1\<rparr>],
   next_handle = 2, log_entries = []\<rparr>"
  by (simp add: destroyed_example_def destroying_example_eq executor_eval channel_eval)

lemma run_destroying_example: "run destroying_example destroyed_example"
proof (rule run_loop[where i = 0])
  show "is_running destroying_example" by (simp add: destroying_example_eq)
  show "run_iteration 0 destroying_example = Some destroyed_example"
    by (simp add: destroyed_example_eq destroying_example_eq executor_eval channel_eval)
  show "run destroyed_example destroyed_example"
    by (rule run_exit) (simp add: destroyed_example_eq)
qed

text \<open>The entry the destructor submits.\<close>

lemma do_run_body:
  assumes "heap st h = Some t" "map_option body (heap st n) = Some b"
  shows "map_option body (heap (do_run h t st) n) = Some b"
proof (cases "n = h")
  case True
  then show ?thesis using assms do_run_frame[of h t st] by auto
next
  case False
  then have "heap (do_run h t st) n = heap st n" using do_run_frame[of h t st] by blast
  then show ?thesis using assms(2) by simp
qed

lemma future_wait_keeps:
  assumes "map_option body (heap st n) = Some b"
  shows "execution_queue (snd (future_wait c fut st)) = execution_queue st
       \<and> map_option body (heap (snd (future_wait c fut st)) n) = Some b"
proof -
  have "snd (future_wait c fut st) = st
      \<or> (\<exists>h t. heap st h = Some t \<and> snd (future_wait c fut st) = do_run h t st)"
    using future_wait_state[of c fut st] wait_callback_state by metis
  then show ?thesis using assms do_run_body[OF _ assms] do_run_queue(1) by metis
qed


lemma destructor_entry:
  "(if has_room (execution_queue s)
    then \<lparr>priority = priority_value normal_priority, func = next_handle s\<rparr>
           \<in> set (items (execution_queue (snd (destructor c s))))
    else \<lparr>priority = priority_value normal_priority, func = next_handle s\<rparr>
           \<in> set (waiting (execution_queue (snd (destructor c s)))))
   \<and> map_option body (heap (snd (destructor c s)) (next_handle s)) = Some Set_not_running"
proof (cases "has_room (execution_queue s)")
  case True
  define s1 where "s1 = snd (internal_begin_invoke Set_not_running False normal_priority s)"
  have b: "internal_begin_invoke Set_not_running False normal_priority s
      = (Returns (Future (next_handle s)), s1)"
    by (simp add: s1_def internal_begin_invoke_room[OF True])
  have q: "\<lparr>priority = priority_value normal_priority, func = next_handle s\<rparr>
      \<in> set (items (execution_queue s1))"
    by (simp add: s1_def internal_begin_invoke_room[OF True])
  have h: "map_option body (heap s1 (next_handle s)) = Some Set_not_running"
    by (simp add: s1_def internal_begin_invoke_room[OF True])
  obtain r s2 where w: "future_wait c (Future (next_handle s)) s1 = (r, s2)"
    by (cases "future_wait c (Future (next_handle s)) s1")
  have k: "execution_queue s2 = execution_queue s1
      \<and> map_option body (heap s2 (next_handle s)) = Some Set_not_running"
    using future_wait_keeps[OF h, of c "Future (next_handle s)"] w by simp
  have "execution_queue (snd (destructor c s)) = execution_queue s2
      \<and> heap (snd (destructor c s)) = heap s2"
    using b w by (cases r) (simp_all add: destructor_def join_def)
  then show ?thesis using True q k by simp
next
  case False
  have "destructor c s = (Blocks (Push_wait \<lparr>priority = priority_value normal_priority,
          func = next_handle s\<rparr>),
      snd (internal_begin_invoke Set_not_running False normal_priority s))"
    by (simp add: destructor_def internal_begin_invoke_full_block[OF False])
  then show ?thesis using False by (simp add: internal_begin_invoke_full_block[OF False])
qed

text \<open>A wait made on a thread other than the worker runs nothing.\<close>

lemma future_get_not_current:
  assumes "\<not> is_current c s"
  shows "snd (future_get c fut s) = s"
  using assms
  by (cases fut) (simp_all add: future_get_def wait_callback_def split: option.splits)

lemma future_wait_not_current:
  assumes "\<not> is_current c s"
  shows "snd (future_wait c fut s) = s"
  using assms
  by (cases fut) (simp_all add: future_wait_def wait_callback_def split: option.splits)

lemma internal_begin_invoke_items:
  "set (items (execution_queue st))
     \<subseteq> set (items (execution_queue (snd (internal_begin_invoke f b p st))))"
proof (cases "has_room (execution_queue st)")
  case True
  then show ?thesis by (simp add: internal_begin_invoke_room) blast
next
  case False
  then show ?thesis
    by (cases b) (simp_all add: internal_begin_invoke_full_try internal_begin_invoke_full_block)
qed

lemma queued_handle_allocated:
  assumes "well_formed st" "x \<in> set (items (execution_queue st))"
  shows "func x \<noteq> next_handle st"
proof -
  have "func x \<in> set (handles st)" using assms(2) by (simp add: handles_def)
  then have "func x < next_handle st" using well_formed_elim(2)[OF assms(1)] by blast
  then show ?thesis by simp
qed

lemma run_iteration_thread:
  assumes "run_iteration i st = Some st1"
  shows "thread st1 = thread st"
proof -
  obtain x q where st1: "st1 = snd (call x (st\<lparr>execution_queue := q\<rparr>))"
    using run_iteration_Some[OF assms] by blast
  define s where "s = st\<lparr>execution_queue := q\<rparr>"
  have "thread (do_run (func x) t' s) = thread s" for t'
    using do_run_frame[of "func x" t' s] by blast
  then have "thread (snd (call x s)) = thread s"
    using call_state[of x s] by metis
  then show ?thesis unfolding st1 s_def by simp
qed


subsection \<open>One step, case by case\<close>

text \<open>
  A property of the state holds after a step if it survives what that step is built
  from; the cases that depend on the step name it.
\<close>

lemma future_get_cases:
  "snd (future_get c fut st) = st
   \<or> (\<exists>h. fut = Future h \<and> snd (future_get c fut st) = snd (wait_callback c h st))"
proof (cases fut)
  case (Future h)
  obtain x s' where w: "wait_callback c h st = (x, s')" by (cases "wait_callback c h st")
  have "snd (future_get c fut st) = st \<or> snd (future_get c fut st) = s'"
    using Future w by (simp add: future_get_def split: option.splits)
  then show ?thesis using w Future by (metis snd_conv)
next
  case Uninitialized
  then show ?thesis by (simp add: future_get_def)
qed

lemma future_wait_cases:
  "snd (future_wait c fut st) = st
   \<or> (\<exists>h. fut = Future h \<and> snd (future_wait c fut st) = snd (wait_callback c h st))"
proof (cases fut)
  case (Future h)
  obtain x s' where w: "wait_callback c h st = (x, s')" by (cases "wait_callback c h st")
  have "snd (future_wait c fut st) = st \<or> snd (future_wait c fut st) = s'"
    using Future w by (simp add: future_wait_def split: option.splits)
  then show ?thesis using w Future by (metis snd_conv)
next
  case Uninitialized
  then show ?thesis by (simp add: future_wait_def)
qed

lemma wait_callback_not_current:
  assumes "\<not> is_current c s"
  shows "wait_callback c h s = (None, s)"
  using assms by (simp add: wait_callback_def)

lemma internal_begin_invoke_result:
  "fst (internal_begin_invoke f False p st) = Returns (Future (next_handle st))
   \<or> (\<exists>w. fst (internal_begin_invoke f False p st) = Blocks w)"
  by (simp add: internal_begin_invoke_def Let_def try_push_def push_def)

lemma event_step:
  assumes P: "P st"
    and submit: "\<And>s f b p. P s \<Longrightarrow> P (snd (internal_begin_invoke f b p s))"
    and inline: "\<And>f. P (snd (perform f st))"
    and waited: "\<And>c h. is_current c st
        \<Longrightarrow> e = Call_get c (Future h) \<or> e = Call_future_wait c (Future h)
        \<Longrightarrow> P (snd (wait_callback c h st))"
    and destroyed: "\<And>c. e = Call_destructor c \<Longrightarrow> is_current c st
        \<Longrightarrow> P (snd (wait_callback c (next_handle st)
                (snd (internal_begin_invoke Set_not_running False normal_priority st))))"
    and popped: "\<And>i x q. (e = Worker_pass i \<and> is_running st) \<or> e = Call_yield (thread st) i
        \<Longrightarrow> try_pop i (execution_queue st) = Some (x, q)
        \<Longrightarrow> P (snd (call x (st\<lparr>execution_queue := q\<rparr>)))"
    and cap: "\<And>n. P (set_capacity n st)"
    and adm: "\<And>k. P (st\<lparr>execution_queue := admit k (execution_queue st)\<rparr>)"
    and logged: "\<And>s l. P s \<Longrightarrow> P (s\<lparr>log_entries := l\<rparr>)"
    and clr: "e = Call_clear \<Longrightarrow> P (clear st)"
    and clrpop: "\<And>i x q. e = Clear_pop i \<Longrightarrow> try_pop i (execution_queue st) = Some (x, q)
        \<Longrightarrow> P (st\<lparr>execution_queue := q\<rparr>)"
  shows "P (after e st)"
proof -
  have tbi: "P (snd (try_begin_invoke f p st))" for f p
    using submit[OF P] P by (simp add: try_begin_invoke_def)
  have bi: "P (snd (begin_invoke f p st))" for f p
    using submit[OF P] P by (simp add: begin_invoke_def)
  have thr: "thread (snd (internal_begin_invoke f b p st)) = thread st" for f b p
    using internal_begin_invoke_frame[of f b p st] by blast
  have inv: "P (snd (invoke c f p st))" for c f p
  proof (cases "is_current c st")
    case True
    then show ?thesis using inline[of f] by (cases "perform f st") (simp add: invoke_def)
  next
    case False
    obtain r s1 where b: "begin_invoke f p st = (r, s1)" by (cases "begin_invoke f p st")
    have s1: "P s1" using bi[of f p] b by simp
    have "thread s1 = thread st" using b thr[of f False p] by (simp add: begin_invoke_def split: if_splits)
    then have "\<not> is_current c s1" using False by (simp add: is_current_def)
    then have "snd (future_get c fut s1) = s1" for fut by (rule future_get_not_current)
    then show ?thesis using False b s1 by (cases r) (simp_all add: invoke_def)
  qed
  show ?thesis
  proof (cases e)
    case (Call_try_begin_invoke f p)
    then show ?thesis using tbi by simp
  next
    case (Call_begin_invoke f p)
    then show ?thesis using bi by simp
  next
    case (Call_invoke c f p)
    then show ?thesis using inv by simp
  next
    case (Call_get c fut)
    show ?thesis
    proof (cases "is_current c st")
      case True
      from future_get_cases[of c fut st] show ?thesis
      proof
        assume "snd (future_get c fut st) = st"
        then show ?thesis using Call_get P by simp
      next
        assume "\<exists>h. fut = Future h \<and> snd (future_get c fut st) = snd (wait_callback c h st)"
        then obtain h where h: "fut = Future h" "snd (future_get c fut st) = snd (wait_callback c h st)"
          by blast
        have "P (snd (wait_callback c h st))" using waited[OF True, of h] Call_get h(1) by simp
        then show ?thesis using Call_get h(2) by simp
      qed
    next
      case False
      then show ?thesis using Call_get P future_get_not_current[OF False, of fut] by simp
    qed
  next
    case (Call_future_wait c fut)
    show ?thesis
    proof (cases "is_current c st")
      case True
      from future_wait_cases[of c fut st] show ?thesis
      proof
        assume "snd (future_wait c fut st) = st"
        then show ?thesis using Call_future_wait P by simp
      next
        assume "\<exists>h. fut = Future h \<and> snd (future_wait c fut st) = snd (wait_callback c h st)"
        then obtain h where h: "fut = Future h" "snd (future_wait c fut st) = snd (wait_callback c h st)"
          by blast
        have "P (snd (wait_callback c h st))" using waited[OF True, of h] Call_future_wait h(1) by simp
        then show ?thesis using Call_future_wait h(2) by simp
      qed
    next
      case False
      then show ?thesis using Call_future_wait P future_wait_not_current[OF False, of fut] by simp
    qed
  next
    case (Call_yield c i)
    show ?thesis
    proof (cases "is_current c st")
      case False
      then show ?thesis using Call_yield P by (simp add: yield_def)
    next
      case True
      then have c: "c = thread st" by (simp add: is_current_def)
      show ?thesis
      proof (cases "try_pop i (execution_queue st)")
        case None
        then show ?thesis using Call_yield P True by (simp add: yield_def)
      next
        case (Some a)
        obtain x q where a: "a = (x, q)" by (cases a)
        have "P (snd (call x (st\<lparr>execution_queue := q\<rparr>)))"
          using popped[of i x q] Call_yield c Some a by simp
        then show ?thesis using Call_yield True Some a
          by (auto simp: yield_def split: prod.splits option.splits)
      qed
    qed
  next
    case (Call_set_capacity n)
    then show ?thesis using cap by simp
  next
    case Call_clear
    then show ?thesis using clr by simp
  next
    case (Clear_pop i)
    show ?thesis
    proof (cases "try_pop i (execution_queue st)")
      case None
      then show ?thesis using Clear_pop P by simp
    next
      case (Some a)
      obtain x q where a: "a = (x, q)" by (cases a)
      have "P (st\<lparr>execution_queue := q\<rparr>)" using clrpop[OF Clear_pop] Some a by simp
      then show ?thesis using Clear_pop Some a by simp
    qed
  next
    case (Call_stop c)
    then show ?thesis using inv by (simp add: stop_def)
  next
    case (Call_wait c)
    then show ?thesis using inv by (simp add: wait_def)
  next
    case (Call_destructor c)
    define s1 where "s1 = snd (internal_begin_invoke Set_not_running False normal_priority st)"
    have s1: "P s1" unfolding s1_def using submit[OF P] by simp
    have t1: "thread s1 = thread st" unfolding s1_def by (rule thr)
    have lg: "P (snd (join s))" if "P s" for s using that by (simp add: join_def)
    from internal_begin_invoke_result[of Set_not_running normal_priority st]
    show ?thesis
    proof
      assume r: "fst (internal_begin_invoke Set_not_running False normal_priority st)
          = Returns (Future (next_handle st))"
      then have b: "internal_begin_invoke Set_not_running False normal_priority st
          = (Returns (Future (next_handle st)), s1)"
        unfolding s1_def by (cases "internal_begin_invoke Set_not_running False normal_priority st") simp
      obtain r2 s2 where w: "future_wait c (Future (next_handle st)) s1 = (r2, s2)"
        by (cases "future_wait c (Future (next_handle st)) s1")
      have s2: "P s2"
      proof (cases "is_current c st")
        case False
        then have "\<not> is_current c s1" using t1 by (simp add: is_current_def)
        then have "snd (future_wait c (Future (next_handle st)) s1) = s1"
          by (rule future_wait_not_current)
        then show ?thesis using w s1 by simp
      next
        case True
        have d: "P (snd (wait_callback c (next_handle st) s1))"
          unfolding s1_def using destroyed[OF Call_destructor True] .
        from future_wait_cases[of c "Future (next_handle st)" s1]
        show ?thesis using w s1 d by auto
      qed
      show ?thesis using Call_destructor b w s2 lg logged
        by (cases r2) (simp_all add: destructor_def)
    next
      assume "\<exists>w. fst (internal_begin_invoke Set_not_running False normal_priority st) = Blocks w"
      then obtain w where "fst (internal_begin_invoke Set_not_running False normal_priority st) = Blocks w"
        by blast
      then have b: "internal_begin_invoke Set_not_running False normal_priority st = (Blocks w, s1)"
        unfolding s1_def by (cases "internal_begin_invoke Set_not_running False normal_priority st") simp
      then show ?thesis using Call_destructor s1 by (simp add: destructor_def)
    qed
  next
    case (Admitted k)
    then show ?thesis using adm by simp
  next
    case (Worker_pass i)
    show ?thesis
    proof (cases "is_running st")
      case False
      then show ?thesis using Worker_pass P by simp
    next
      case True
      show ?thesis
      proof (cases "run_iteration i st")
        case None
        then show ?thesis using Worker_pass P True by simp
      next
        case (Some s1)
        obtain x q where p: "try_pop i (execution_queue st) = Some (x, q)"
          and st1: "s1 = snd (call x (st\<lparr>execution_queue := q\<rparr>))"
          using run_iteration_Some[OF Some] by blast
        have "P s1" unfolding st1 using popped[of i x q] Worker_pass True p by simp
        then show ?thesis using Worker_pass True Some by simp
      qed
    qed
  qed
qed

subsection \<open>Queued until run\<close>

lemma is_started_do_run:
  "is_started (do_run h t s) h"
  using do_run_frame[of h t s] by (simp add: is_started_def)

lemma is_started_do_run_other:
  assumes "is_started s h'"
  shows "is_started (do_run h t s) h'"
proof (cases "h' = h")
  case True
  then show ?thesis by (simp add: is_started_do_run)
next
  case False
  then have "heap (do_run h t s) h' = heap s h'" using do_run_frame[of h t s] by blast
  then show ?thesis using assms by (simp add: is_started_def)
qed

lemma do_run_allocated:
  assumes "heap s h' \<noteq> None"
  shows "heap (do_run h t s) h' \<noteq> None"
proof (cases "h' = h")
  case True
  then show ?thesis using do_run_frame[of h t s] by simp
next
  case False
  then have "heap (do_run h t s) h' = heap s h'" using do_run_frame[of h t s] by blast
  then show ?thesis using assms by simp
qed

lemma task_run_mono:
  "execution_queue (snd (task_run h s)) = execution_queue s
   \<and> next_handle (snd (task_run h s)) = next_handle s
   \<and> thread (snd (task_run h s)) = thread s
   \<and> (\<forall>h'. h' \<noteq> h \<longrightarrow> heap (snd (task_run h s)) h' = heap s h')
   \<and> (\<forall>h'. heap s h' \<noteq> None \<longrightarrow> heap (snd (task_run h s)) h' \<noteq> None)
   \<and> (\<forall>h'. is_started s h' \<longrightarrow> is_started (snd (task_run h s)) h')
   \<and> (heap s h \<noteq> None \<longrightarrow> is_started (snd (task_run h s)) h)"
proof (cases "heap s h")
  case None
  then show ?thesis by (simp add: task_run_def)
next
  case (Some t)
  show ?thesis
  proof (cases "started t")
    case True
    then show ?thesis using Some by (simp add: task_run_def is_started_def)
  next
    case False
    have r: "snd (task_run h s) = do_run h t s" using Some False by (simp add: task_run_def)
    have f: "execution_queue (do_run h t s) = execution_queue s"
      "next_handle (do_run h t s) = next_handle s" "thread (do_run h t s) = thread s"
      "\<forall>h'. h' \<noteq> h \<longrightarrow> heap (do_run h t s) h' = heap s h'"
      using do_run_frame[of h t s] by blast+
    show ?thesis unfolding r
      using f is_started_do_run[of h t s] is_started_do_run_other[of s _ h t]
        do_run_allocated[of s _ h t]
      by blast
  qed
qed

lemma call_mono:
  "execution_queue (snd (call x s)) = execution_queue s
   \<and> next_handle (snd (call x s)) = next_handle s
   \<and> thread (snd (call x s)) = thread s
   \<and> (\<forall>h'. h' \<noteq> func x \<longrightarrow> heap (snd (call x s)) h' = heap s h')
   \<and> (\<forall>h'. heap s h' \<noteq> None \<longrightarrow> heap (snd (call x s)) h' \<noteq> None)
   \<and> (\<forall>h'. is_started s h' \<longrightarrow> is_started (snd (call x s)) h')
   \<and> (heap s (func x) \<noteq> None \<longrightarrow> is_started (snd (call x s)) (func x))"
  using task_run_mono[of "func x" s] by (simp add: call_def snd_catch_already_started)

lemma wait_callback_mono:
  "execution_queue (snd (wait_callback c h s)) = execution_queue s
   \<and> next_handle (snd (wait_callback c h s)) = next_handle s
   \<and> thread (snd (wait_callback c h s)) = thread s
   \<and> (\<forall>h'. h' \<noteq> h \<longrightarrow> heap (snd (wait_callback c h s)) h' = heap s h')
   \<and> (\<forall>h'. heap s h' \<noteq> None \<longrightarrow> heap (snd (wait_callback c h s)) h' \<noteq> None)
   \<and> (\<forall>h'. is_started s h' \<longrightarrow> is_started (snd (wait_callback c h s)) h')"
  using task_run_mono[of h s] by (simp add: wait_callback_def snd_catch_already_started)

lemma is_started_cong:
  "heap s' h = heap s h \<Longrightarrow> is_started s' h = is_started s h"
  by (simp add: is_started_def)

lemma admit_items: "set (items ch) \<subseteq> set (items (admit k ch))"
  by (auto simp: admit_def)


text \<open>
  Short of a \<open>clear\<close>, an entry stays in the channel until its task has been entered.
\<close>

lemma queued_step:
  assumes k: "keeps_entries e"
    and b: "func y < next_handle st" and a: "heap st (func y) \<noteq> None"
    and q: "\<not> is_started st (func y) \<longrightarrow> y \<in> set (items (execution_queue st))"
  shows "func y < next_handle (after e st) \<and> heap (after e st) (func y) \<noteq> None
       \<and> (\<not> is_started (after e st) (func y) \<longrightarrow> y \<in> set (items (execution_queue (after e st))))"
proof (rule event_step[where P = "\<lambda>s::executor. func y < next_handle s \<and> heap s (func y) \<noteq> None
       \<and> (\<not> is_started s (func y) \<longrightarrow> y \<in> set (items (execution_queue s)))"])
  show "func y < next_handle st \<and> heap st (func y) \<noteq> None
       \<and> (\<not> is_started st (func y) \<longrightarrow> y \<in> set (items (execution_queue st)))"
    using b a q by blast
next
  fix s :: executor and f b p
  assume P: "func y < next_handle s \<and> heap s (func y) \<noteq> None
       \<and> (\<not> is_started s (func y) \<longrightarrow> y \<in> set (items (execution_queue s)))"
  define s1 where "s1 = snd (internal_begin_invoke f b p s)"
  have n: "next_handle s1 = Suc (next_handle s)" and h: "heap s1 (func y) = heap s (func y)"
    unfolding s1_def using internal_begin_invoke_frame[of f b p s] P by auto
  have i: "set (items (execution_queue s)) \<subseteq> set (items (execution_queue s1))"
    unfolding s1_def by (rule internal_begin_invoke_items)
  show "func y < next_handle s1 \<and> heap s1 (func y) \<noteq> None
       \<and> (\<not> is_started s1 (func y) \<longrightarrow> y \<in> set (items (execution_queue s1)))"
    using P n h i is_started_cong[OF h] by auto
next
  fix f
  show "func y < next_handle (snd (perform f st)) \<and> heap (snd (perform f st)) (func y) \<noteq> None
       \<and> (\<not> is_started (snd (perform f st)) (func y)
            \<longrightarrow> y \<in> set (items (execution_queue (snd (perform f st)))))"
    using b a q perform_queue[of f st] by (simp add: is_started_def)
next
  fix c h
  show "func y < next_handle (snd (wait_callback c h st))
       \<and> heap (snd (wait_callback c h st)) (func y) \<noteq> None
       \<and> (\<not> is_started (snd (wait_callback c h st)) (func y)
            \<longrightarrow> y \<in> set (items (execution_queue (snd (wait_callback c h st)))))"
    using b a q wait_callback_mono[of c h st] by metis
next
  fix c
  define s1 where "s1 = snd (internal_begin_invoke Set_not_running False normal_priority st)"
  have n: "next_handle s1 = Suc (next_handle st)" and h: "heap s1 (func y) = heap st (func y)"
    unfolding s1_def using internal_begin_invoke_frame[of Set_not_running False normal_priority st] b
    by auto
  have i: "set (items (execution_queue st)) \<subseteq> set (items (execution_queue s1))"
    unfolding s1_def by (rule internal_begin_invoke_items)
  have P1: "func y < next_handle s1" "heap s1 (func y) \<noteq> None"
       "\<not> is_started s1 (func y) \<longrightarrow> y \<in> set (items (execution_queue s1))"
    using b a q n h i is_started_cong[OF h] by auto
  show "func y < next_handle (snd (wait_callback c (next_handle st) s1))
       \<and> heap (snd (wait_callback c (next_handle st) s1)) (func y) \<noteq> None
       \<and> (\<not> is_started (snd (wait_callback c (next_handle st) s1)) (func y)
            \<longrightarrow> y \<in> set (items (execution_queue (snd (wait_callback c (next_handle st) s1)))))"
    using P1 wait_callback_mono[of c "next_handle st" s1] by metis
next
  fix i x qq
  assume p: "try_pop i (execution_queue st) = Some (x, qq)"
  define s1 where "s1 = st\<lparr>execution_queue := qq\<rparr>"
  have c: "set (items (execution_queue st)) \<subseteq> insert x (set (items qq))"
    using p by (rule try_pop_items_cover)
  have s1: "heap s1 = heap st" "next_handle s1 = next_handle st" "execution_queue s1 = qq"
    by (simp_all add: s1_def)
  have st: "is_started s1 (func y) = is_started st (func y)"
    by (simp add: s1_def is_started_def)
  have "is_started (snd (call x s1)) (func y) \<or> y \<in> set (items qq)"
  proof (cases "x = y")
    case True
    then show ?thesis using call_mono[of x s1] a s1 by simp
  next
    case False
    then show ?thesis using c q st call_mono[of x s1] by blast
  qed
  then show "func y < next_handle (snd (call x s1)) \<and> heap (snd (call x s1)) (func y) \<noteq> None
       \<and> (\<not> is_started (snd (call x s1)) (func y)
            \<longrightarrow> y \<in> set (items (execution_queue (snd (call x s1)))))"
    using b a s1 call_mono[of x s1] by metis
next
  fix n
  show "func y < next_handle (set_capacity n st) \<and> heap (set_capacity n st) (func y) \<noteq> None
       \<and> (\<not> is_started (set_capacity n st) (func y)
            \<longrightarrow> y \<in> set (items (execution_queue (set_capacity n st))))"
    using b a q by (simp add: set_capacity_def is_started_def)
next
  fix k
  show "func y < next_handle (st\<lparr>execution_queue := admit k (execution_queue st)\<rparr>)
       \<and> heap (st\<lparr>execution_queue := admit k (execution_queue st)\<rparr>) (func y) \<noteq> None
       \<and> (\<not> is_started (st\<lparr>execution_queue := admit k (execution_queue st)\<rparr>) (func y)
            \<longrightarrow> y \<in> set (items (execution_queue (st\<lparr>execution_queue := admit k (execution_queue st)\<rparr>))))"
    using b a q admit_items[of "execution_queue st" k] by (auto simp: is_started_def)
next
  fix s :: executor and l
  assume "func y < next_handle s \<and> heap s (func y) \<noteq> None
       \<and> (\<not> is_started s (func y) \<longrightarrow> y \<in> set (items (execution_queue s)))"
  then show "func y < next_handle (s\<lparr>log_entries := l\<rparr>) \<and> heap (s\<lparr>log_entries := l\<rparr>) (func y) \<noteq> None
       \<and> (\<not> is_started (s\<lparr>log_entries := l\<rparr>) (func y)
            \<longrightarrow> y \<in> set (items (execution_queue (s\<lparr>log_entries := l\<rparr>))))"
    by (simp add: is_started_def)
next
  assume "e = Call_clear"
  then show "func y < next_handle (clear st) \<and> heap (clear st) (func y) \<noteq> None
       \<and> (\<not> is_started (clear st) (func y) \<longrightarrow> y \<in> set (items (execution_queue (clear st))))"
    using k by simp
next
  fix i x qq
  assume "e = Clear_pop i"
  then show "func y < next_handle (st\<lparr>execution_queue := qq\<rparr>)
       \<and> heap (st\<lparr>execution_queue := qq\<rparr>) (func y) \<noteq> None
       \<and> (\<not> is_started (st\<lparr>execution_queue := qq\<rparr>) (func y)
            \<longrightarrow> y \<in> set (items (execution_queue (st\<lparr>execution_queue := qq\<rparr>))))"
    using k by simp
qed

subsection \<open>Started and resolved\<close>

text \<open>
  In every state an executor can be in, a task is marked started exactly when its
  result is stored.
\<close>

lemma started_resolved_step:
  assumes "\<forall>h t. heap st h = Some t \<longrightarrow> started t = (state t \<noteq> None)"
  shows "\<forall>h t. heap (after e st) h = Some t \<longrightarrow> started t = (state t \<noteq> None)"
proof (rule after_preserves[where P = "\<lambda>s::executor. \<forall>h t. heap s h = Some t \<longrightarrow> started t = (state t \<noteq> None)"])
  show "\<forall>h t. heap st h = Some t \<longrightarrow> started t = (state t \<noteq> None)" by (rule assms)
next
  fix s :: executor and h t
  assume P: "\<forall>h t. heap s h = Some t \<longrightarrow> started t = (state t \<noteq> None)"
    and h: "heap s h = Some t" "\<not> started t"
  show "\<forall>h' t'. heap (do_run h t s) h' = Some t' \<longrightarrow> started t' = (state t' \<noteq> None)"
  proof (intro allI impI)
    fix h' t' assume a: "heap (do_run h t s) h' = Some t'"
    show "started t' = (state t' \<noteq> None)"
    proof (cases "h' = h")
      case True
      then show ?thesis using a do_run_frame[of h t s] by auto
    next
      case False
      then show ?thesis using a P do_run_frame[of h t s] by auto
    qed
  qed
next
  fix s :: executor and f b p
  assume P: "\<forall>h t. heap s h = Some t \<longrightarrow> started t = (state t \<noteq> None)"
  show "\<forall>h t. heap (snd (internal_begin_invoke f b p s)) h = Some t \<longrightarrow> started t = (state t \<noteq> None)"
  proof (intro allI impI)
    fix h t assume a: "heap (snd (internal_begin_invoke f b p s)) h = Some t"
    show "started t = (state t \<noteq> None)"
    proof (cases "h = next_handle s")
      case True
      then show ?thesis using a internal_begin_invoke_frame[of f b p s] by auto
    next
      case False
      then show ?thesis using a P internal_begin_invoke_frame[of f b p s] by auto
    qed
  qed
next
  fix s :: executor and f
  assume "\<forall>h t. heap s h = Some t \<longrightarrow> started t = (state t \<noteq> None)"
  then show "\<forall>h t. heap (snd (perform f s)) h = Some t
               \<longrightarrow> started t = (state t \<noteq> None)"
    using perform_frame[of f s] by simp
qed (simp_all add: set_capacity_def clear_def)

lemma reachable_started_resolved:
  assumes "reachable st" "heap st h = Some t"
  shows "started t = (state t \<noteq> None)"
proof -
  have "\<forall>h t. heap st h = Some t \<longrightarrow> started t = (state t \<noteq> None)"
    using assms(1)
  proof (induction rule: reachable.induct)
    case (reachable_new n w)
    show ?case by (simp add: executor_new_def)
  next
    case (reachable_step st e)
    from reachable_step.IH show ?case by (rule started_resolved_step)
  qed
  then show ?thesis using assms(2) by blast
qed

lemma has_run_is_started:
  assumes "reachable st"
  shows "has_run st h = is_started st h"
proof (cases "heap st h")
  case None
  then show ?thesis by (simp add: has_run_def is_started_def)
next
  case (Some t)
  then show ?thesis
    using reachable_started_resolved[OF assms Some] reachable_at_most_once[OF assms Some]
    by (simp add: has_run_def is_started_def)
qed

lemma queued_after_all:
  assumes "\<forall>e \<in> set evs. keeps_entries e"
    and "func y < next_handle st" and "heap st (func y) \<noteq> None"
    and "\<not> is_started st (func y) \<longrightarrow> y \<in> set (items (execution_queue st))"
  shows "func y < next_handle (after_all evs st) \<and> heap (after_all evs st) (func y) \<noteq> None
       \<and> (\<not> is_started (after_all evs st) (func y)
            \<longrightarrow> y \<in> set (items (execution_queue (after_all evs st))))"
  using assms
proof (induction evs arbitrary: st)
  case Nil
  then show ?case by (simp add: after_all_def)
next
  case (Cons e evs)
  have k: "keeps_entries e" using Cons.prems(1) by simp
  note s = queued_step[OF k Cons.prems(2,3,4)]
  have r: "\<forall>x \<in> set evs. keeps_entries x" using Cons.prems(1) by simp
  from Cons.IH[OF r conjunct1[OF s] conjunct1[OF conjunct2[OF s]] conjunct2[OF conjunct2[OF s]]]
  show ?case by (simp add: after_all_def)
qed

lemma queued_allocated:
  assumes "reachable st" "y \<in> set (items (execution_queue st))"
  shows "func y < next_handle st" "heap st (func y) \<noteq> None"
proof -
  have h: "func y \<in> set (handles st)" using assms(2) by (simp add: handles_def)
  show "func y < next_handle st"
    using well_formed_elim(2)[OF reachable_well_formed[OF assms(1)]] h by blast
  show "heap st (func y) \<noteq> None" using reachable_handles_allocated[OF assms(1) h] .
qed

lemma queued_until_run:
  assumes "reachable st" "y \<in> set (items (execution_queue st))"
    and "\<forall>e \<in> set evs. keeps_entries e"
  shows "has_run (after_all evs st) (func y)
       \<or> y \<in> set (items (execution_queue (after_all evs st)))"
proof -
  have r: "reachable (after_all evs st)" using assms(1) by (rule reachable_after_all)
  have "\<not> is_started st (func y) \<longrightarrow> y \<in> set (items (execution_queue st))"
    using assms(2) by simp
  from queued_after_all[OF assms(3) queued_allocated[OF assms(1,2)] this]
  show ?thesis using has_run_is_started[OF r] by blast
qed

text \<open>What the worker's loop takes out, it takes from the top.\<close>

lemma run_iteration_queue:
  assumes "run_iteration i st = Some st1"
  shows "\<exists>x. pop i (execution_queue st) = Some (x, execution_queue st1)"
proof -
  obtain x q where p: "try_pop i (execution_queue st) = Some (x, q)"
    and st1: "st1 = snd (call x (st\<lparr>execution_queue := q\<rparr>))"
    using run_iteration_Some[OF assms] by blast
  have "execution_queue st1 = q" unfolding st1 using call_mono[of x "st\<lparr>execution_queue := q\<rparr>"] by simp
  then show ?thesis using p by (simp add: pop_def)
qed

lemma worker_pass_queue:
  assumes "is_running st" "pop i (execution_queue st) = Some (x, q)"
  shows "execution_queue (after (Worker_pass i) st) = q"
proof -
  have "items (execution_queue st) \<noteq> []"
    using assms(2) try_pop_None[of i "execution_queue st"] by (simp add: pop_def)
  then obtain st1 where s: "run_iteration i st = Some st1"
    using run_iteration_nonempty by blast
  from run_iteration_queue[OF s] assms(2) have "execution_queue st1 = q" by auto
  then show ?thesis using assms(1) s by simp
qed

lemma dequeued_by_worker_sorted:
  "set (dequeued_by_worker (map Worker_pass js) st) \<subseteq> set (items (execution_queue st))
   \<and> sorted_wrt (\<lambda>a b. priority b \<le> priority a) (dequeued_by_worker (map Worker_pass js) st)"
proof (induction js arbitrary: st)
  case Nil
  show ?case by simp
next
  case (Cons j js)
  show ?case
  proof (cases "is_running st")
    case False
    then have "after (Worker_pass j) st = st" by simp
    then show ?thesis using False Cons.IH[of st] by simp
  next
    case True
    show ?thesis
    proof (cases "pop j (execution_queue st)")
      case None
      then show ?thesis using True Cons.IH[of st] by simp
    next
      case (Some a)
      obtain x q where a: "a = (x, q)" by (cases a)
      have p: "try_pop j (execution_queue st) = Some (x, q)" using Some a by (simp add: pop_def)
      have q: "execution_queue (after (Worker_pass j) st) = q"
        using True Some a by (intro worker_pass_queue) simp_all
      note t = try_pop_Some[OF p]
      have sub: "set (items q) \<subseteq> set (items (execution_queue st))"
        using p by (rule try_pop_items_subset)
      have d: "dequeued_by_worker (map Worker_pass (j # js)) st
          = x # dequeued_by_worker (map Worker_pass js) (after (Worker_pass j) st)"
        using True Some a by simp
      have ih: "set (dequeued_by_worker (map Worker_pass js) (after (Worker_pass j) st)) \<subseteq> set (items q)"
        "sorted_wrt (\<lambda>a b. priority b \<le> priority a)
           (dequeued_by_worker (map Worker_pass js) (after (Worker_pass j) st))"
        using Cons.IH[of "after (Worker_pass j) st"] q by simp_all
      have x: "x \<in> set (items (execution_queue st))"
        and top: "\<forall>y \<in> set (items (execution_queue st)). priority y \<le> priority x"
        using t by blast+
      have "\<forall>y \<in> set (dequeued_by_worker (map Worker_pass js) (after (Worker_pass j) st)).
          priority y \<le> priority x"
        using ih(1) sub top by blast
      then show ?thesis unfolding d using ih x sub by (simp del: after.simps)
    qed
  qed
qed

text \<open>Any of the highest entries may be the one the worker takes.\<close>

lemma ordered_example_eq: "ordered_example =
  \<lparr>name = ''video'', is_running = True, thread = 0,
   execution_queue = \<lparr>items = [\<lparr>priority = 2, func = 0\<rparr>, \<lparr>priority = 4, func = 1\<rparr>,
                               \<lparr>priority = 4, func = 2\<rparr>],
                      waiting = [], channel_capacity = 512\<rparr>,
   heap = [0 \<mapsto> \<lparr>body = Return (Number 1), started = False, state = None, runs = 0\<rparr>,
           1 \<mapsto> \<lparr>body = Return (Number 2), started = False, state = None, runs = 0\<rparr>,
           2 \<mapsto> \<lparr>body = Return (Number 3), started = False, state = None, runs = 0\<rparr>],
   next_handle = 3, log_entries = []\<rparr>"
  by (simp add: ordered_example_def executor_eval channel_eval numeral_2_eq_2)

lemma reachable_ordered_example: "reachable ordered_example"
  unfolding ordered_example_def by (intro reachable_after_all reachable_new_example)

lemma run_iteration_any_top:
  assumes "k < length (items (execution_queue st))"
    and "\<forall>y \<in> set (items (execution_queue st)). priority y \<le> priority (items (execution_queue st) ! k)"
  shows "\<exists>j st'. run_iteration j st = Some st'
           \<and> pop j (execution_queue st) = Some (items (execution_queue st) ! k, execution_queue st')"
proof -
  obtain j q where p: "try_pop j (execution_queue st) = Some (items (execution_queue st) ! k, q)"
    using try_pop_any_top[OF assms] by blast
  have "items (execution_queue st) \<noteq> []" using assms(1) by auto
  then obtain st' where r: "run_iteration j st = Some st'"
    using run_iteration_nonempty by blast
  from run_iteration_queue[OF r] p
  have "pop j (execution_queue st) = Some (items (execution_queue st) ! k, execution_queue st')"
    by (auto simp: pop_def)
  then show ?thesis using r by blast
qed

subsection \<open>After the flag is clear\<close>

lemma wait_callback_running:
  "is_running (snd (wait_callback c h s)) \<longrightarrow> is_running s"
  using wait_callback_state[of c h s] do_run_frame[of h _ s] by metis

lemma call_running:
  "is_running (snd (call x s)) \<longrightarrow> is_running s"
  using call_state[of x s] do_run_frame[of "func x" _ s] by metis

lemma not_running_dequeues_nothing:
  assumes "\<not> is_running st"
  shows "dequeued_by_worker evs st = []"
  using assms
proof (induction evs arbitrary: st)
  case Nil
  show ?case by simp
next
  case (Cons e evs)
  have "\<not> is_running (after e st)" using Cons.prems by (rule not_running_step)
  then have "dequeued_by_worker evs (after e st) = []" by (rule Cons.IH)
  moreover have "dequeued_by_worker evs st = []" using Cons.prems by (rule Cons.IH)
  ultimately show ?case using Cons.prems by (cases e) (simp_all del: after.simps)
qed

text \<open>
  Once the flag is clear, a task is left as it is by every step that is not a \<open>yield\<close>
  or a wait on its future made on the worker thread.
\<close>

lemma stopped_step:
  assumes n: "no_inline_run (thread st) h e"
    and r: "\<not> is_running st" and b: "h < next_handle st"
  shows "\<not> is_running (after e st) \<and> thread (after e st) = thread st
       \<and> h < next_handle (after e st) \<and> heap (after e st) h = heap st h"
proof (rule event_step[where P = "\<lambda>s::executor. \<not> is_running s \<and> thread s = thread st
       \<and> h < next_handle s \<and> heap s h = heap st h"])
  show "\<not> is_running st \<and> thread st = thread st \<and> h < next_handle st \<and> heap st h = heap st h"
    using r b by simp
next
  fix s :: executor and f b p
  assume "\<not> is_running s \<and> thread s = thread st \<and> h < next_handle s \<and> heap s h = heap st h"
  then show "\<not> is_running (snd (internal_begin_invoke f b p s))
       \<and> thread (snd (internal_begin_invoke f b p s)) = thread st
       \<and> h < next_handle (snd (internal_begin_invoke f b p s))
       \<and> heap (snd (internal_begin_invoke f b p s)) h = heap st h"
    using internal_begin_invoke_frame[of f b p s] by auto
next
  fix f
  show "\<not> is_running (snd (perform f st)) \<and> thread (snd (perform f st)) = thread st
       \<and> h < next_handle (snd (perform f st)) \<and> heap (snd (perform f st)) h = heap st h"
    using r b perform_frame[of f st] by auto
next
  fix c h'
  assume "is_current c st" "e = Call_get c (Future h') \<or> e = Call_future_wait c (Future h')"
  then have "h \<noteq> h'" using n by (auto simp: is_current_def)
  then show "\<not> is_running (snd (wait_callback c h' st))
       \<and> thread (snd (wait_callback c h' st)) = thread st
       \<and> h < next_handle (snd (wait_callback c h' st))
       \<and> heap (snd (wait_callback c h' st)) h = heap st h"
    using r b wait_callback_mono[of c h' st] wait_callback_running[of c h' st] by auto
next
  fix c
  define s1 where "s1 = snd (internal_begin_invoke Set_not_running False normal_priority st)"
  have f: "\<not> is_running s1" "thread s1 = thread st" "next_handle s1 = Suc (next_handle st)"
    "heap s1 h = heap st h"
    unfolding s1_def
    using r b internal_begin_invoke_frame[of Set_not_running False normal_priority st] by auto
  have ne: "h \<noteq> next_handle st" using b by simp
  show "\<not> is_running (snd (wait_callback c (next_handle st) s1))
       \<and> thread (snd (wait_callback c (next_handle st) s1)) = thread st
       \<and> h < next_handle (snd (wait_callback c (next_handle st) s1))
       \<and> heap (snd (wait_callback c (next_handle st) s1)) h = heap st h"
    using f b ne wait_callback_mono[of c "next_handle st" s1]
      wait_callback_running[of c "next_handle st" s1] by auto
next
  fix i x q
  assume "(e = Worker_pass i \<and> is_running st) \<or> e = Call_yield (thread st) i"
  then have False using n r by auto
  then show "\<not> is_running (snd (call x (st\<lparr>execution_queue := q\<rparr>)))
       \<and> thread (snd (call x (st\<lparr>execution_queue := q\<rparr>))) = thread st
       \<and> h < next_handle (snd (call x (st\<lparr>execution_queue := q\<rparr>)))
       \<and> heap (snd (call x (st\<lparr>execution_queue := q\<rparr>))) h = heap st h" ..
next
  fix s :: executor and l
  assume "\<not> is_running s \<and> thread s = thread st \<and> h < next_handle s \<and> heap s h = heap st h"
  then show "\<not> is_running (s\<lparr>log_entries := l\<rparr>) \<and> thread (s\<lparr>log_entries := l\<rparr>) = thread st
       \<and> h < next_handle (s\<lparr>log_entries := l\<rparr>) \<and> heap (s\<lparr>log_entries := l\<rparr>) h = heap st h"
    by simp
qed (use r b in \<open>simp_all add: set_capacity_def clear_def\<close>)

lemma stopped_after_all:
  assumes "\<forall>e \<in> set evs. no_inline_run (thread st) h e"
    and "\<not> is_running st" and "h < next_handle st"
  shows "heap (after_all evs st) h = heap st h"
  using assms
proof (induction evs arbitrary: st)
  case Nil
  show ?case by (simp add: after_all_def)
next
  case (Cons e evs)
  have n: "no_inline_run (thread st) h e" using Cons.prems(1) by simp
  note s = stopped_step[OF n Cons.prems(2,3)]
  have "\<forall>x \<in> set evs. no_inline_run (thread (after e st)) h x" using Cons.prems(1) s by simp
  from Cons.IH[OF this] s have "heap (after_all evs (after e st)) h = heap (after e st) h" by blast
  then show ?case using s by (simp add: after_all_def)
qed

subsection \<open>Left behind a pending shutdown task\<close>

lemma run_iteration_popped:
  assumes "try_pop i (execution_queue st) = Some (x, q)"
  shows "run_iteration i st = Some (snd (call x (st\<lparr>execution_queue := q\<rparr>)))"
proof -
  obtain e s' where c: "call x (st\<lparr>execution_queue := q\<rparr>) = (e, s')"
    by (cases "call x (st\<lparr>execution_queue := q\<rparr>)")
  have "e = None" using fst_call[of x "st\<lparr>execution_queue := q\<rparr>"] c by simp
  then show ?thesis using assms c by (simp add: run_iteration_def pop_def)
qed

text \<open>
  With a pending shutdown task in the channel, an entry below it and its task stay as
  they are through every step that is not a \<open>clear\<close>, a \<open>yield\<close> on the worker thread or
  a wait on the future of that task on the worker thread.
\<close>

lemma left_behind_step:
  assumes t: "\<not> started t" "body t = Set_not_running"
    and lower: "priority pf < priority sd"
    and k: "keeps_entries e" and n: "no_inline_run (thread st) (func pf) e"
    and wf: "well_formed st"
    and sd: "is_running st \<longrightarrow>
               sd \<in> set (items (execution_queue st)) \<and> heap st (func sd) = Some t"
    and pf: "pf \<in> set (items (execution_queue st))"
  shows "well_formed (after e st) \<and> thread (after e st) = thread st
       \<and> (is_running (after e st) \<longrightarrow>
            sd \<in> set (items (execution_queue (after e st)))
            \<and> heap (after e st) (func sd) = Some t)
       \<and> pf \<in> set (items (execution_queue (after e st)))
       \<and> heap (after e st) (func pf) = heap st (func pf)"
proof -
  let ?P = "\<lambda>s::executor. well_formed s \<and> thread s = thread st
       \<and> (is_running s \<longrightarrow> sd \<in> set (items (execution_queue s)) \<and> heap s (func sd) = Some t)
       \<and> pf \<in> set (items (execution_queue s))
       \<and> heap s (func pf) = heap st (func pf)"
  have P0: "?P st" using wf sd pf by simp
  have sub: "?P (snd (internal_begin_invoke f b p s))" if P: "?P s" for s :: executor and f b p
  proof -
    let ?s' = "snd (internal_begin_invoke f b p s)"
    note fr = internal_begin_invoke_frame[of f b p s]
    have sub: "set (items (execution_queue s)) \<subseteq> set (items (execution_queue ?s'))"
      by (rule internal_begin_invoke_items)
    have keep: "heap ?s' (func x) = heap s (func x)" if "x \<in> set (items (execution_queue s))" for x
      using queued_handle_allocated[of s x] that P fr by blast
    have "well_formed ?s'" using P well_formed_submit by blast
    moreover have "thread ?s' = thread st" using P fr by simp
    moreover have "is_running ?s' \<longrightarrow>
        sd \<in> set (items (execution_queue ?s')) \<and> heap ?s' (func sd) = Some t"
      using P fr sub keep[of sd] by auto
    moreover have "pf \<in> set (items (execution_queue ?s'))" using P sub by blast
    moreover have "heap ?s' (func pf) = heap st (func pf)" using P keep[of pf] by simp
    ultimately show ?thesis by blast
  qed
  have cb: "?P (snd (wait_callback c h s))" if P: "?P s" and h: "h \<noteq> func pf"
    for s :: executor and c h
  proof -
    let ?s' = "snd (wait_callback c h s)"
    note m = wait_callback_mono[of c h s]
    have q: "execution_queue ?s' = execution_queue s" "next_handle ?s' = next_handle s"
      "thread ?s' = thread s" and o: "\<forall>h'. h' \<noteq> h \<longrightarrow> heap ?s' h' = heap s h'"
      using m by blast+
    have w: "well_formed ?s'" using P q by (simp add: well_formed_def handles_def)
    have r: "is_running ?s' \<longrightarrow> is_running s" by (rule wait_callback_running)
    have s: "heap ?s' (func sd) = Some t" if r1: "is_running ?s'"
    proof (cases "h = func sd")
      case False
      then show ?thesis using o P r r1 by simp
    next
      case True
      have hs: "heap s h = Some t" using P r r1 True by simp
      from wait_callback_state[of c h s] show ?thesis
      proof
        assume "snd (wait_callback c h s) = s"
        then show ?thesis using hs True by simp
      next
        assume "\<exists>t'. heap s h = Some t' \<and> \<not> started t' \<and> snd (wait_callback c h s) = do_run h t' s"
        then have "snd (wait_callback c h s) = do_run h t s" using hs by auto
        then have "\<not> is_running ?s'" using t(2) do_run_frame[of h t s] by simp
        then show ?thesis using r1 by simp
      qed
    qed
    show ?thesis using P w q o h r s by auto
  qed
  have "?P (after e st)"
  proof (rule event_step[where P = ?P and e = e])
    show "?P st" by (rule P0)
  next
    fix s :: executor and f b p
    assume "?P s"
    then show "?P (snd (internal_begin_invoke f b p s))" by (rule sub)
  next
    fix f
    show "?P (snd (perform f st))"
      using P0 perform_frame[of f st] by (auto simp: well_formed_def handles_def)
  next
    fix c h
    assume "is_current c st" "e = Call_get c (Future h) \<or> e = Call_future_wait c (Future h)"
    then have "h \<noteq> func pf" using n by (auto simp: is_current_def)
    with P0 show "?P (snd (wait_callback c h st))" by (rule cb)
  next
    fix c
    have "next_handle st \<noteq> func pf" using queued_handle_allocated[OF wf pf] by simp
    with sub[OF P0]
    show "?P (snd (wait_callback c (next_handle st)
                (snd (internal_begin_invoke Set_not_running False normal_priority st))))"
      by (rule cb)
  next
    fix i x q
    assume a: "(e = Worker_pass i \<and> is_running st) \<or> e = Call_yield (thread st) i"
      and p: "try_pop i (execution_queue st) = Some (x, q)"
    have r: "is_running st" using a n by auto
    have it: "run_iteration i st = Some (snd (call x (st\<lparr>execution_queue := q\<rparr>)))"
      using p by (rule run_iteration_popped)
    have sd': "sd \<in> set (items (execution_queue st))" "heap st (func sd) = Some t"
      using sd r by simp_all
    note ws = worker_step[OF wf r sd' t it]
    have "pf \<in> set (items (execution_queue (snd (call x (st\<lparr>execution_queue := q\<rparr>)))))
        \<and> heap (snd (call x (st\<lparr>execution_queue := q\<rparr>))) (func pf) = heap st (func pf)"
      using ws(4) pf lower by blast
    then show "?P (snd (call x (st\<lparr>execution_queue := q\<rparr>)))"
      using ws(1,2) run_iteration_thread[OF it] by simp
  next
    fix m
    show "?P (set_capacity m st)"
      using P0 by (simp add: set_capacity_def well_formed_def handles_def)
  next
    fix j
    let ?s' = "st\<lparr>execution_queue := admit j (execution_queue st)\<rparr>"
    have sub: "set (items (execution_queue st)) \<subseteq> set (items (execution_queue ?s'))"
      using admit_items[of "execution_queue st" j] by simp
    have "well_formed ?s'" using wf by (rule well_formed_admit)
    then show "?P ?s'" using P0 sub by auto
  next
    fix s :: executor and l
    assume "?P s"
    then show "?P (s\<lparr>log_entries := l\<rparr>)" by (simp add: well_formed_def handles_def)
  next
    assume "e = Call_clear"
    then show "?P (clear st)" using k by simp
  next
    fix i x q
    assume "e = Clear_pop i"
    then show "?P (st\<lparr>execution_queue := q\<rparr>)" using k by simp
  qed
  then show ?thesis by simp
qed

lemma left_behind_after_all:
  assumes t: "\<not> started t" "body t = Set_not_running"
    and lower: "priority pf < priority sd"
    and out: "\<forall>e \<in> set evs. keeps_entries e \<and> no_inline_run (thread st) (func pf) e"
    and wf: "well_formed st"
    and sd: "is_running st \<longrightarrow>
               sd \<in> set (items (execution_queue st)) \<and> heap st (func sd) = Some t"
    and pf: "pf \<in> set (items (execution_queue st))"
  shows "pf \<in> set (items (execution_queue (after_all evs st)))
       \<and> heap (after_all evs st) (func pf) = heap st (func pf)
       \<and> pf \<notin> set (dequeued_by_worker evs st)"
  using out wf sd pf
proof (induction evs arbitrary: st)
  case Nil
  then show ?case by (simp add: after_all_def)
next
  case (Cons e evs)
  have o: "keeps_entries e" "no_inline_run (thread st) (func pf) e" using Cons.prems(1) by simp_all
  note st = left_behind_step[OF t lower o Cons.prems(2,3,4)]
  have "\<forall>x \<in> set evs. keeps_entries x \<and> no_inline_run (thread (after e st)) (func pf) x"
    using Cons.prems(1) st by simp
  from Cons.IH[OF this] st
  have ih: "pf \<in> set (items (execution_queue (after_all evs (after e st))))"
      "heap (after_all evs (after e st)) (func pf) = heap (after e st) (func pf)"
      "pf \<notin> set (dequeued_by_worker evs (after e st))"
    by blast+
  have a: "pf \<in> set (items (execution_queue (after_all (e # evs) st)))
       \<and> heap (after_all (e # evs) st) (func pf) = heap st (func pf)"
    using ih(1,2) st by (simp add: after_all_def)
  have d: "pf \<notin> set (dequeued_by_worker (e # evs) st)"
  proof (cases "\<exists>i. e = Worker_pass i")
    case False
    then have "dequeued_by_worker (e # evs) st = dequeued_by_worker evs (after e st)"
      by (cases e) (simp_all del: after.simps)
    then show ?thesis using ih(3) by simp
  next
    case True
    then obtain i where e: "e = Worker_pass i" by blast
    show ?thesis
    proof (cases "is_running st")
      case False
      then have "after e st = st" using e by simp
      then show ?thesis using ih(3) False e by (simp del: after.simps)
    next
      case r: True
      show ?thesis
      proof (cases "pop i (execution_queue st)")
        case None
        then have "run_iteration i st = None" by (simp add: run_iteration_def)
        then have "after e st = st" using e by simp
        then show ?thesis using ih(3) None r e by (simp del: after.simps)
      next
        case (Some a)
        obtain x q where a: "a = (x, q)" by (cases a)
        have p: "try_pop i (execution_queue st) = Some (x, q)" using Some a by (simp add: pop_def)
        have "sd \<in> set (items (execution_queue st))" using Cons.prems(3) r by simp
        then have "priority sd \<le> priority x" using try_pop_Some[OF p] by blast
        then have "x \<noteq> pf" using lower by auto
        moreover have "dequeued_by_worker (e # evs) st = x # dequeued_by_worker evs (after e st)"
          using e r Some a by (simp del: after.simps)
        ultimately show ?thesis using ih(3) by simp
      qed
    qed
  qed
  show ?case using a d by blast
qed

lemma crowded_example_eq: "crowded_example =
  \<lparr>name = ''video'', is_running = True, thread = 0,
   execution_queue = \<lparr>items = [\<lparr>priority = 2, func = 0\<rparr>], waiting = [], channel_capacity = 1\<rparr>,
   heap = [0 \<mapsto> \<lparr>body = Return (Number 7), started = False, state = None, runs = 0\<rparr>],
   next_handle = 1, log_entries = []\<rparr>"
  by (simp add: crowded_example_def executor_eval channel_eval)

lemma reachable_destroying_example: "reachable destroying_example"
  unfolding destroying_example_def by (intro reachable_after_all reachable_new_example)

subsection \<open>The marker of a wait\<close>














text \<open>
  A step may name any future, but in the source the future of the marker is the
  temporary of line 143, which only the caller of \<open>wait()\<close> holds, and that caller is
  not the worker. In the model a wait on that future made on the worker thread would
  run the marker in place, ahead of the task queued before it; this is why the steps
  considered for the marker exclude it.
\<close>

lemma marker_future_example:
  "\<not> undisturbed 0 1 (Call_get 0 (Future 1))
   \<and> shared_state (after (Call_get 0 (Future 1)) waiting_example) 1 = Some (Inr Void)
   \<and> \<not> has_run (after (Call_get 0 (Future 1)) waiting_example) 0"
  by (simp add: waiting_example_eq has_run_def executor_eval)

section \<open>The claims\<close>

subsection \<open>C1: priority ordering\<close>

text \<open>
  C1: in every state, the entry a pass of the worker's loop takes out of the channel is
  a queued entry that no queued entry exceeds in priority, so a task of lower priority
  is never popped while one of strictly higher priority is queued. Over a run of passes
  on what has been submitted, the order of dequeue is non-increasing in priority. With
  submissions and any other steps in between, short of a \<open>clear()\<close> (which takes
  entries out without running them), an entry can be popped only when every entry of
  strictly higher priority that was queued before has left the channel and has run.
  Among the entries of equal, highest priority the order is open: any one of them may
  be the one the worker takes.
\<close>

theorem C1_worker_dequeues_highest:
  "(run_iteration i st = Some st' \<longrightarrow>
      (\<exists>pf. pop i (execution_queue st) = Some (pf, execution_queue st')
           \<and> pf \<in> set (items (execution_queue st))
           \<and> (\<forall>y \<in> set (items (execution_queue st)). priority y \<le> priority pf)))
   \<and> sorted_wrt (\<lambda>a b. priority b \<le> priority a) (dequeued_by_worker (map Worker_pass js) st)
   \<and> (reachable st \<and> y \<in> set (items (execution_queue st)) \<and> (\<forall>e \<in> set evs. keeps_entries e)
        \<and> pop j (execution_queue (after_all evs st)) = Some (x, q) \<and> priority x < priority y \<longrightarrow>
      y \<notin> set (items (execution_queue (after_all evs st)))
      \<and> has_run (after_all evs st) (func y))
   \<and> (k < length (items (execution_queue st))
        \<and> (\<forall>y \<in> set (items (execution_queue st)).
              priority y \<le> priority (items (execution_queue st) ! k)) \<longrightarrow>
      (\<exists>j st'. run_iteration j st = Some st'
           \<and> pop j (execution_queue st)
               = Some (items (execution_queue st) ! k, execution_queue st')))"
proof -
  have a: "\<exists>pf. pop i (execution_queue st) = Some (pf, execution_queue st')
           \<and> pf \<in> set (items (execution_queue st))
           \<and> (\<forall>y \<in> set (items (execution_queue st)). priority y \<le> priority pf)"
    if ri: "run_iteration i st = Some st'"
  proof -
    obtain pf where p: "pop i (execution_queue st) = Some (pf, execution_queue st')"
      using run_iteration_queue[OF ri] by blast
    then have "try_pop i (execution_queue st) = Some (pf, execution_queue st')" by (simp add: pop_def)
    from try_pop_Some[OF this] p show ?thesis by blast
  qed
  have b: "sorted_wrt (\<lambda>a b. priority b \<le> priority a) (dequeued_by_worker (map Worker_pass js) st)"
    using dequeued_by_worker_sorted[of js st] by blast
  have c: "y \<notin> set (items (execution_queue (after_all evs st)))
      \<and> has_run (after_all evs st) (func y)"
    if "reachable st" "y \<in> set (items (execution_queue st))" "\<forall>e \<in> set evs. keeps_entries e"
      "pop j (execution_queue (after_all evs st)) = Some (x, q)" "priority x < priority y"
  proof -
    have "try_pop j (execution_queue (after_all evs st)) = Some (x, q)"
      using that(4) by (simp add: pop_def)
    from try_pop_Some[OF this]
    have "\<forall>z \<in> set (items (execution_queue (after_all evs st))). priority z \<le> priority x"
      by blast
    then have n: "y \<notin> set (items (execution_queue (after_all evs st)))"
      using that(5) by fastforce
    then show ?thesis using queued_until_run[OF that(1,2,3)] by blast
  qed
  have d: "\<exists>j st'. run_iteration j st = Some st'
           \<and> pop j (execution_queue st)
               = Some (items (execution_queue st) ! k, execution_queue st')"
    if "k < length (items (execution_queue st))"
      "\<forall>y \<in> set (items (execution_queue st)).
              priority y \<le> priority (items (execution_queue st) ! k)"
    using that by (rule run_iteration_any_top)
  show ?thesis using a b c d by blast
qed

theorem C1_worker_dequeues_highest_witness:
  "reachable ordered_example
   \<and> items (execution_queue ordered_example)
       = [\<lparr>priority = 2, func = 0\<rparr>, \<lparr>priority = 4, func = 1\<rparr>, \<lparr>priority = 4, func = 2\<rparr>]
   \<and> pop 1 (execution_queue ordered_example)
       = Some (\<lparr>priority = 4, func = 2\<rparr>,
               execution_queue (after (Worker_pass 1) ordered_example))
   \<and> dequeued_by_worker (map Worker_pass [1, 0, 0]) ordered_example
       = [\<lparr>priority = 4, func = 2\<rparr>, \<lparr>priority = 4, func = 1\<rparr>, \<lparr>priority = 2, func = 0\<rparr>]
   \<and> sorted_wrt (\<lambda>a b. priority b \<le> priority a)
        (dequeued_by_worker (map Worker_pass [1, 0, 0]) ordered_example)
   \<and> pop 0 (execution_queue (after_all [Worker_pass 0, Worker_pass 0] ordered_example))
       = Some (\<lparr>priority = 2, func = 0\<rparr>, \<lparr>items = [], waiting = [], channel_capacity = 512\<rparr>)
   \<and> has_run (after_all [Worker_pass 0, Worker_pass 0] ordered_example) 2
   \<and> (\<exists>j st'. run_iteration j ordered_example = Some st'
         \<and> pop j (execution_queue ordered_example)
             = Some (\<lparr>priority = 4, func = 1\<rparr>, execution_queue st'))"
proof -
  have i: "items (execution_queue ordered_example)
       = [\<lparr>priority = 2, func = 0\<rparr>, \<lparr>priority = 4, func = 1\<rparr>, \<lparr>priority = 4, func = 2\<rparr>]"
    by (simp add: ordered_example_eq)
  have r: "run_iteration 1 ordered_example = Some (after (Worker_pass 1) ordered_example)"
    by (simp add: ordered_example_eq executor_eval channel_eval)
  have p: "pop 1 (execution_queue ordered_example)
       = Some (\<lparr>priority = 4, func = 2\<rparr>,
               execution_queue (after (Worker_pass 1) ordered_example))"
    by (simp add: ordered_example_eq executor_eval channel_eval)
  have d: "dequeued_by_worker (map Worker_pass [1, 0, 0]) ordered_example
       = [\<lparr>priority = 4, func = 2\<rparr>, \<lparr>priority = 4, func = 1\<rparr>, \<lparr>priority = 2, func = 0\<rparr>]"
    by (simp add: ordered_example_eq executor_eval channel_eval)
  have q: "pop 0 (execution_queue (after_all [Worker_pass 0, Worker_pass 0] ordered_example))
       = Some (\<lparr>priority = 2, func = 0\<rparr>, \<lparr>items = [], waiting = [], channel_capacity = 512\<rparr>)"
    by (simp add: ordered_example_eq executor_eval channel_eval)
  have y: "\<lparr>priority = 4, func = 2\<rparr> \<in> set (items (execution_queue ordered_example))"
    "\<forall>e \<in> set [Worker_pass 0, Worker_pass 0]. keeps_entries e"
    "priority \<lparr>priority = 2, func = 0\<rparr> < priority \<lparr>priority = 4, func = 2\<rparr>"
    by (simp_all add: i)
  have k: "(1::nat) < length (items (execution_queue ordered_example))"
    "\<forall>y \<in> set (items (execution_queue ordered_example)).
        priority y \<le> priority (items (execution_queue ordered_example) ! 1)"
    by (simp_all add: i)
  note inst = C1_worker_dequeues_highest[of 1 ordered_example "after (Worker_pass 1) ordered_example"
      "[1, 0, 0]" "\<lparr>priority = 4, func = 2\<rparr>" "[Worker_pass 0, Worker_pass 0]" 0
      "\<lparr>priority = 2, func = 0\<rparr>" "\<lparr>items = [], waiting = [], channel_capacity = 512\<rparr>" 1]
  have s: "sorted_wrt (\<lambda>a b. priority b \<le> priority a)
        (dequeued_by_worker (map Worker_pass [1, 0, 0]) ordered_example)"
    using inst by blast
  have h: "has_run (after_all [Worker_pass 0, Worker_pass 0] ordered_example)
        (func \<lparr>priority = 4, func = 2\<rparr>)"
    using inst reachable_ordered_example y q by blast
  have t: "\<exists>j st'. run_iteration j ordered_example = Some st'
         \<and> pop j (execution_queue ordered_example)
             = Some (items (execution_queue ordered_example) ! 1, execution_queue st')"
    using inst k by blast
  show ?thesis using reachable_ordered_example i p d s q h t by (simp del: after.simps)
qed

subsection \<open>C2: at-most-once execution\<close>

text \<open>
  C2, as stated, says that the action of every submitted task is executed exactly once.
  In this run a submitted task is executed zero times: thread 1 submits a task at low
  priority and calls \<open>stop()\<close>; the worker pops the stop task first, clears the flag
  and returns from \<open>run\<close>; the low task is still pending, a further pass of the
  worker changes nothing, and \<open>run\<close> has returned, so that no code runs on the worker
  thread any more.
\<close>

theorem C2_abandoned_task_counterexample:
  "heap abandoned_example 0 = Some \<lparr>body = Return (Number 7), started = False, state = None, runs = 0\<rparr>
   \<and> \<not> is_running abandoned_example
   \<and> after (Worker_pass 0) abandoned_example = abandoned_example
   \<and> run abandoned_example abandoned_example"
proof -
  have n: "\<not> is_running abandoned_example" by (simp add: abandoned_example_eq)
  then have "run abandoned_example abandoned_example" by (rule run_exit)
  then show ?thesis using n by (simp add: abandoned_example_eq)
qed

text \<open>
  C2, amended: in every state an executor can reach, the action of a task has been
  executed at most once. While the task is not started, the dequeued entry executes it,
  and so does the wait callback on the worker thread; once it is started, either
  attempt leaves the state as it is and throws nothing. The fast path of \<open>invoke\<close> on
  the worker thread runs its function directly, once, and creates no task and no queue
  entry.
\<close>

theorem C2_executed_at_most_once:
  assumes "reachable st" and "heap st h = Some t"
  shows "runs t \<le> 1
    \<and> fst (call \<lparr>priority = p, func = h\<rparr> st) = None \<and> fst (wait_callback c h st) = None
    \<and> (started t \<longrightarrow>
          call \<lparr>priority = p, func = h\<rparr> st = (None, st) \<and> wait_callback c h st = (None, st))
    \<and> (\<not> started t \<longrightarrow>
          runs t = 0
          \<and> call \<lparr>priority = p, func = h\<rparr> st = (None, do_run h t st)
          \<and> wait_callback c h st = (None, if is_current c st then do_run h t st else st)
          \<and> heap (do_run h t st) h =
              Some (t\<lparr>started := True, state := Some (fst (perform (body t) st)), runs := 1\<rparr>))
    \<and> (is_current c st \<longrightarrow>
          invoke c f q st = (deliver (fst (perform f st)), snd (perform f st))
          \<and> heap (snd (invoke c f q st)) = heap st
          \<and> execution_queue (snd (invoke c f q st)) = execution_queue st)"
proof -
  have r: "runs t = (if started t then 1 else 0)"
    using assms by (rule reachable_at_most_once)
  have inv: "is_current c st \<Longrightarrow> invoke c f q st = (deliver (fst (perform f st)), snd (perform f st))"
    by (simp add: invoke_def split: prod.splits)
  show ?thesis
    using r inv call_started(1)[OF assms(2), of p] call_started(2)[OF assms(2), of c]
      call_pending(1)[OF assms(2), of p] call_pending(2,3)[OF assms(2), of c]
      fst_call[of "\<lparr>priority = p, func = h\<rparr>" st] fst_wait_callback[of c h st]
      do_run_frame[of h t st] perform_frame[of f st]
    by auto
qed

theorem C2_executed_at_most_once_witness:
  "reachable submitted_example
   \<and> heap submitted_example 0 = Some \<lparr>body = Return (Number 7), started = False, state = None, runs = 0\<rparr>
   \<and> call \<lparr>priority = 3, func = 0\<rparr> submitted_example
      = (None, do_run 0 \<lparr>body = Return (Number 7), started = False, state = None, runs = 0\<rparr> submitted_example)
   \<and> heap (do_run 0 \<lparr>body = Return (Number 7), started = False, state = None, runs = 0\<rparr> submitted_example) 0
      = Some \<lparr>body = Return (Number 7), started = True, state = Some (Inr (Number 7)), runs = 1\<rparr>"
proof -
  have r: "reachable submitted_example"
    unfolding submitted_example_def new_example_def by (intro reachable.intros)
  have h: "heap submitted_example 0 = Some \<lparr>body = Return (Number 7), started = False, state = None, runs = 0\<rparr>"
    by (simp add: submitted_example_eq)
  from C2_executed_at_most_once[OF r h, of 3 0 "Return Void" normal_priority] r h
  show ?thesis by simp
qed

subsection \<open>C3: re-entrant wait\<close>



subsection \<open>C4: backpressure\<close>

text \<open>
  C4: on a running executor whose channel is full, \<open>try_begin_invoke\<close> returns the
  uninitialized future at once, with the channel and the log as they were and the task
  freed; a \<open>get()\<close> on that future throws in every state. \<open>begin_invoke\<close> logs the
  overflow line and leaves the caller blocked in \<open>push\<close>, its entry waiting and not
  yet among the items; a waiting entry is not let in while the channel is full and is
  inserted once there is room. In no state does \<open>begin_invoke\<close> return the
  uninitialized future.
\<close>

theorem C4_backpressure:
  assumes "is_running st" and "\<not> has_room (execution_queue st)"
  shows "try_begin_invoke f p st =
           (Returns Uninitialized,
            st\<lparr>heap := (heap st)(next_handle st := None), next_handle := Suc (next_handle st)\<rparr>)
       \<and> future_get c Uninitialized st' = (Throws Future_uninitialized, st')
       \<and> begin_invoke f p st =
           (Blocks (Push_wait \<lparr>priority = priority_value p, func = next_handle st\<rparr>),
            st\<lparr>heap := (heap st)(next_handle st \<mapsto>
                    \<lparr>body = f, started = False, state = None, runs = 0\<rparr>),
               next_handle := Suc (next_handle st),
               log_entries := log_entries st @
                    [Debug (''executor['' @ name st @ ''] Overflow. Blocking caller.'')],
               execution_queue := (execution_queue st)\<lparr>waiting := waiting (execution_queue st)
                    @ [\<lparr>priority = priority_value p, func = next_handle st\<rparr>]\<rparr>\<rparr>)
       \<and> (\<not> has_room ch \<longrightarrow> admit k ch = ch)
       \<and> (has_room ch \<and> k < length (waiting ch) \<longrightarrow>
            items (admit k ch) = items ch @ [waiting ch ! k]
            \<and> waiting (admit k ch) = take k (waiting ch) @ drop (Suc k) (waiting ch))
       \<and> fst (begin_invoke f' p' st'') \<noteq> Returns Uninitialized"
  using assms internal_begin_invoke_full_try[of st f p] internal_begin_invoke_full_block[of st f p]
    begin_invoke_not_uninitialized[of f' p' st'']
  by (simp add: try_begin_invoke_def begin_invoke_def future_get_def admit_def print_def)

theorem C4_backpressure_witness:
  "is_running full_example \<and> \<not> has_room (execution_queue full_example)
   \<and> fst (try_begin_invoke (Return (Number 8)) high_priority full_example) = Returns Uninitialized
   \<and> execution_queue (snd (try_begin_invoke (Return (Number 8)) high_priority full_example))
       = execution_queue full_example
   \<and> begin_invoke (Return (Number 8)) high_priority full_example
       = (Blocks (Push_wait \<lparr>priority = 4, func = 1\<rparr>), blocked_example)
   \<and> admit 0 (execution_queue blocked_example) = execution_queue blocked_example
   \<and> items (admit 0 (execution_queue (after (Worker_pass 0) blocked_example)))
       = [\<lparr>priority = 4, func = 1\<rparr>]"
proof -
  have a: "is_running full_example" "\<not> has_room (execution_queue full_example)"
    by (simp_all add: full_example_eq has_room_def)
  have b: "\<not> has_room (execution_queue blocked_example)"
    by (simp add: blocked_example_eq has_room_def)
  have w: "execution_queue (after (Worker_pass 0) blocked_example)
      = \<lparr>items = [], waiting = [\<lparr>priority = 4, func = 1\<rparr>], channel_capacity = 1\<rparr>"
    by (simp add: blocked_example_eq executor_eval channel_eval)
  have c: "has_room (execution_queue (after (Worker_pass 0) blocked_example))
      \<and> 0 < length (waiting (execution_queue (after (Worker_pass 0) blocked_example)))"
    unfolding w by (simp add: has_room_def)
  from C4_backpressure[OF a, of "Return (Number 8)" high_priority 0 full_example
      "execution_queue blocked_example" 0 "Return Void" normal_priority full_example]
    C4_backpressure[OF a, of "Return (Number 8)" high_priority 0 full_example
      "execution_queue (after (Worker_pass 0) blocked_example)" 0 "Return Void" normal_priority full_example]
    a b c
  show ?thesis unfolding w by (simp add: blocked_example_eq full_example_eq del: after.simps)
qed

subsection \<open>C5: shutdown\<close>

text \<open>
  C5, as stated, says that after \<open>stop()\<close> has returned every later \<open>invoke\<close> fails with
  the not-running error, and that no task queued at that instant is executed afterwards.
  Neither holds for code running on the worker thread. \<open>invoke\<close> asks \<open>is_current()\<close>
  first (line 140) and runs the function in place without looking at the flag: code on
  the worker thread calls \<open>stop()\<close>, which returns, and then \<open>invoke\<close>, which returns 9.
  \<open>yield\<close> (lines 146 to 154) never tests the flag either: called there after that
  \<open>stop()\<close>, it pops the task that was queued and runs it; and a \<open>get()\<close> on the future
  of that task runs it through the wait callback (lines 236 to 244).
\<close>

theorem C5_worker_thread_after_stop_counterexample:
  "stop 0 submitted_example = (Returns Void, stopped_example)
   \<and> invoke 0 (Return (Number 9)) high_priority stopped_example
       = (Returns (Number 9), stopped_example)
   \<and> items (execution_queue stopped_example) = [\<lparr>priority = 3, func = 0\<rparr>]
   \<and> heap stopped_example 0
       = Some \<lparr>body = Return (Number 7), started = False, state = None, runs = 0\<rparr>
   \<and> fst (yield 0 0 stopped_example) = Returns ()
   \<and> heap (snd (yield 0 0 stopped_example)) 0
       = Some \<lparr>body = Return (Number 7), started = True, state = Some (Inr (Number 7)), runs = 1\<rparr>
   \<and> fst (future_get 0 (Future 0) stopped_example) = Returns (Number 7)
   \<and> heap (snd (future_get 0 (Future 0) stopped_example)) 0
       = Some \<lparr>body = Return (Number 7), started = True, state = Some (Inr (Number 7)), runs = 1\<rparr>"
  by (simp add: stopped_example_eq submitted_example_eq executor_eval channel_eval)

text \<open>
  C5, amended: once \<open>stop()\<close> has returned (at once on the worker thread, or on another
  thread when the \<open>get()\<close> on the future of its task returns), then after any further
  steps the flag is clear, \<open>begin_invoke\<close> and \<open>try_begin_invoke\<close> throw
  \<open>invalid_operation\<close> with the message "executor not running." and leave the state as
  it is, and \<open>invoke\<close> does so when called from a thread other than the worker. The
  worker's loop takes nothing more out of the channel: a further pass changes nothing,
  \<open>run\<close> returns in the state it is in, and along any sequence of steps the loop
  dequeues no entry. Every task queued at that instant stays exactly as it was, not
  executed, through every sequence of steps in which no code on the worker thread calls
  \<open>yield()\<close> or waits on the future of that task.
\<close>

theorem C5_shutdown:
  assumes "reachable st0"
    and "stop c st0 = (Returns v, st)
         \<or> (heap st0 h = Some t \<and> body t = Set_not_running
             \<and> future_get c (Future h) st0 = (Returns v, st))"
  shows "\<not> is_running (after_all evs st)
       \<and> begin_invoke f p (after_all evs st)
           = (Throws (Invalid_operation ''executor not running.'' (Some (name (after_all evs st)))),
              after_all evs st)
       \<and> try_begin_invoke f p (after_all evs st)
           = (Throws (Invalid_operation ''executor not running.'' None), after_all evs st)
       \<and> (\<not> is_current c' (after_all evs st) \<longrightarrow>
            invoke c' f p (after_all evs st)
              = (Throws (Invalid_operation ''executor not running.''
                           (Some (name (after_all evs st)))), after_all evs st))
       \<and> after (Worker_pass i) (after_all evs st) = after_all evs st
       \<and> (\<forall>st'. run (after_all evs st) st' \<longrightarrow> st' = after_all evs st)
       \<and> dequeued_by_worker evs st = []
       \<and> (\<forall>pf \<in> set (items (execution_queue st)).
            (\<forall>e \<in> set evs. no_inline_run (thread st) (func pf) e) \<longrightarrow>
            heap (after_all evs st) (func pf) = heap st (func pf))"
proof -
  have s: "\<not> is_running st"
    using assms stop_returns stop_task_get_returns by blast
  then have n: "\<not> is_running (after_all evs st)" by (rule not_running_after_all)
  have "st = after (Call_stop c) st0 \<or> st = after (Call_get c (Future h)) st0"
    using assms(2) by auto
  then have r: "reachable st" using assms(1) reachable_step by metis
  have d: "dequeued_by_worker evs st = []" using s by (rule not_running_dequeues_nothing)
  have k: "heap (after_all evs st) (func pf) = heap st (func pf)"
    if "\<forall>e \<in> set evs. no_inline_run (thread st) (func pf) e"
      "pf \<in> set (items (execution_queue st))" for pf
    using that(1) s queued_allocated(1)[OF r that(2)] by (rule stopped_after_all)
  show ?thesis
    using n not_running_submission[OF n] not_running_worker[OF n] not_running_run[OF _ n] d k
    by blast
qed

theorem C5_shutdown_witness:
  "reachable submitted_example
   \<and> stop 0 submitted_example = (Returns Void, stopped_example)
   \<and> \<not> is_running (after_all [Call_set_capacity 8, Call_get 0 (Future 5), Worker_pass 0] stopped_example)
   \<and> fst (begin_invoke (Return (Number 9)) high_priority
             (after_all [Call_set_capacity 8, Call_get 0 (Future 5), Worker_pass 0] stopped_example))
       = Throws (Invalid_operation ''executor not running.'' (Some ''video''))
   \<and> after (Worker_pass 0) (after_all [Call_set_capacity 8, Call_get 0 (Future 5), Worker_pass 0] stopped_example)
       = after_all [Call_set_capacity 8, Call_get 0 (Future 5), Worker_pass 0] stopped_example
   \<and> dequeued_by_worker [Call_set_capacity 8, Call_get 0 (Future 5), Worker_pass 0] stopped_example = []
   \<and> items (execution_queue stopped_example) = [\<lparr>priority = 3, func = 0\<rparr>]
   \<and> heap (after_all [Call_set_capacity 8, Call_get 0 (Future 5), Worker_pass 0] stopped_example) 0
       = Some \<lparr>body = Return (Number 7), started = False, state = None, runs = 0\<rparr>
   \<and> reachable abandoned_example
   \<and> future_get 1 (Future 1) abandoned_example = (Returns Void, abandoned_example)
   \<and> fst (try_begin_invoke (Return (Number 9)) high_priority (after_all [] abandoned_example))
       = Throws (Invalid_operation ''executor not running.'' None)"
proof -
  have s: "stop 0 submitted_example = (Returns Void, stopped_example)"
    by (simp add: stopped_example_def submitted_example_eq executor_eval)
  have g: "heap abandoned_example 1
        = Some \<lparr>body = Set_not_running, started = True, state = Some (Inr Void), runs = 1\<rparr>
      \<and> body \<lparr>body = Set_not_running, started = True, state = Some (Inr Void), runs = 1\<rparr>
        = Set_not_running
      \<and> future_get 1 (Future 1) abandoned_example = (Returns Void, abandoned_example)"
    by (simp add: abandoned_example_eq executor_eval)
  have n: "name (after_all [Call_set_capacity 8, Call_get 0 (Future 5), Worker_pass 0] stopped_example) = ''video''"
    by (simp add: stopped_example_eq executor_eval channel_eval)
  have q: "items (execution_queue stopped_example) = [\<lparr>priority = 3, func = 0\<rparr>]"
    "heap stopped_example 0
       = Some \<lparr>body = Return (Number 7), started = False, state = None, runs = 0\<rparr>"
    "\<forall>e \<in> set [Call_set_capacity 8, Call_get 0 (Future 5), Worker_pass 0].
        no_inline_run (thread stopped_example) 0 e"
    by (simp_all add: stopped_example_eq)
  note one = C5_shutdown[OF reachable_submitted_example disjI1[OF s],
      of "[Call_set_capacity 8, Call_get 0 (Future 5), Worker_pass 0]" "Return (Number 9)" high_priority 1 0]
  have h: "\<forall>pf \<in> set (items (execution_queue stopped_example)).
      (\<forall>e \<in> set [Call_set_capacity 8, Call_get 0 (Future 5), Worker_pass 0].
          no_inline_run (thread stopped_example) (func pf) e) \<longrightarrow>
      heap (after_all [Call_set_capacity 8, Call_get 0 (Future 5), Worker_pass 0] stopped_example) (func pf)
        = heap stopped_example (func pf)"
    using one by blast
  have h0: "heap (after_all [Call_set_capacity 8, Call_get 0 (Future 5), Worker_pass 0] stopped_example) 0
       = Some \<lparr>body = Return (Number 7), started = False, state = None, runs = 0\<rparr>"
    using h q by (simp del: after.simps)
  from one
    C5_shutdown[OF reachable_abandoned_example disjI2[OF g],
      of "[]" "Return (Number 9)" high_priority 1 0]
    s g n q(1) h0 reachable_submitted_example reachable_abandoned_example
  show ?thesis by simp
qed

subsection \<open>C8: the not-running error is raised synchronously\<close>

text \<open>
  C8, as stated, says that \<open>invoke\<close> raises the not-running error whenever the flag is
  false at call time. On the worker thread it does not: on an executor whose flag is
  clear, \<open>invoke\<close> called on the worker thread returns 7.
\<close>

theorem C8_invoke_on_worker_counterexample:
  "\<not> is_running (snd (stop 0 new_example))
   \<and> invoke 0 (Return (Number 7)) normal_priority (snd (stop 0 new_example))
       = (Returns (Number 7), snd (stop 0 new_example))"
  by (simp add: executor_eval)

text \<open>
  C8, amended: when the flag is false at call time, \<open>begin_invoke\<close> and
  \<open>try_begin_invoke\<close> throw \<open>invalid_operation\<close> with the message
  "executor not running." at once, the state unchanged (nothing allocated, nothing
  queued); \<open>invoke\<close> does the same when the caller is not the worker thread; on the
  worker thread \<open>invoke\<close> runs the function in place, whatever the flag.
\<close>

theorem C8_not_running_raised:
  assumes "\<not> is_running st"
  shows "begin_invoke f p st
           = (Throws (Invalid_operation ''executor not running.'' (Some (name st))), st)
       \<and> try_begin_invoke f p st
           = (Throws (Invalid_operation ''executor not running.'' None), st)
       \<and> (\<not> is_current c st \<longrightarrow>
            invoke c f p st
              = (Throws (Invalid_operation ''executor not running.'' (Some (name st))), st))
       \<and> (is_current c st \<longrightarrow>
            invoke c f p st = (deliver (fst (perform f st)), snd (perform f st)))"
  using not_running_submission[OF assms] invoke_current by blast

theorem C8_not_running_raised_witness:
  "\<not> is_running (snd (stop 0 new_example))
   \<and> begin_invoke (Return (Number 7)) normal_priority (snd (stop 0 new_example))
       = (Throws (Invalid_operation ''executor not running.'' (Some ''video'')),
          snd (stop 0 new_example))
   \<and> try_begin_invoke (Return (Number 7)) normal_priority (snd (stop 0 new_example))
       = (Throws (Invalid_operation ''executor not running.'' None), snd (stop 0 new_example))
   \<and> invoke 1 (Return (Number 7)) normal_priority (snd (stop 0 new_example))
       = (Throws (Invalid_operation ''executor not running.'' (Some ''video'')),
          snd (stop 0 new_example))"
proof -
  have n: "\<not> is_running (snd (stop 0 new_example))"
    by (simp add: executor_eval)
  have m: "name (snd (stop 0 new_example)) = ''video''"
    "\<not> is_current 1 (snd (stop 0 new_example))"
    by (simp_all add: executor_eval)
  from C8_not_running_raised[OF n, of "Return (Number 7)" normal_priority 1] n m
  show ?thesis by simp
qed

subsection \<open>C9: which errors carry the executor's name\<close>

text \<open>
  C9 says that every not-running and invalid-operation error carries the executor's
  name. \<open>begin_invoke\<close> (line 132) and \<open>yield\<close> (line 149) attach \<open>source_info(name_)\<close>;
  \<open>try_begin_invoke\<close> (line 122) attaches the message only. On the stopped executor
  named "video":
\<close>

theorem C9_try_begin_invoke_error_lacks_name:
  "\<not> is_running stopped_example
   \<and> fst (try_begin_invoke (Return Void) normal_priority stopped_example)
       = Throws (Invalid_operation ''executor not running.'' None)
   \<and> fst (begin_invoke (Return Void) normal_priority stopped_example)
       = Throws (Invalid_operation ''executor not running.'' (Some ''video''))
   \<and> fst (yield 1 0 stopped_example)
       = Throws (Invalid_operation ''Executor can only yield inside of thread context.''
                   (Some ''video''))"
  by (simp add: stopped_example_eq executor_eval)

subsection \<open>C7: error propagation\<close>



subsection \<open>C6: drain barrier\<close>




subsection \<open>C10: what the destructor leaves behind\<close>

text \<open>
  C10, as stated, says that in every destruction the tasks queued below normal priority
  at that moment are never executed. Three runs in which such a task is executed. On a
  full channel the destructor is blocked in \<open>push\<close> (line 270), its entry not yet in the
  channel; the worker pops the low task and runs it, and only then is the shutdown entry
  let in. With the shutdown entry queued, code on the worker thread that calls \<open>yield()\<close>
  twice pops the shutdown task and then the low task and runs both (lines 146 to 154),
  and a \<open>get()\<close> there on the future of the low task runs it through the wait callback
  (lines 236 to 244). And a \<open>clear()\<close> on another thread, one pass into its loop (line
  169), has taken the shutdown entry out; the worker then pops the low task and runs it.
\<close>

theorem C10_low_task_runs_counterexample:
  "items (execution_queue crowded_example) = [\<lparr>priority = 2, func = 0\<rparr>]
   \<and> fst (destructor 1 crowded_example) = Blocks (Push_wait \<lparr>priority = 3, func = 1\<rparr>)
   \<and> items (execution_queue (after (Call_destructor 1) crowded_example))
       = [\<lparr>priority = 2, func = 0\<rparr>]
   \<and> waiting (execution_queue (after (Call_destructor 1) crowded_example))
       = [\<lparr>priority = 3, func = 1\<rparr>]
   \<and> heap (after_all [Call_destructor 1, Worker_pass 0, Admitted 0] crowded_example) 0
       = Some \<lparr>body = Return (Number 7), started = True, state = Some (Inr (Number 7)), runs = 1\<rparr>
   \<and> items (execution_queue (after_all [Call_destructor 1, Worker_pass 0, Admitted 0]
                                crowded_example))
       = [\<lparr>priority = 3, func = 1\<rparr>]
   \<and> items (execution_queue destroying_example)
       = [\<lparr>priority = 2, func = 0\<rparr>, \<lparr>priority = 3, func = 1\<rparr>]
   \<and> heap (after_all [Call_yield 0 0, Call_yield 0 0] destroying_example) 0
       = Some \<lparr>body = Return (Number 7), started = True, state = Some (Inr (Number 7)), runs = 1\<rparr>
   \<and> heap (after (Call_get 0 (Future 0)) destroying_example) 0
       = Some \<lparr>body = Return (Number 7), started = True, state = Some (Inr (Number 7)), runs = 1\<rparr>
   \<and> items (execution_queue (after (Clear_pop 0) destroying_example))
       = [\<lparr>priority = 2, func = 0\<rparr>]
   \<and> heap (after_all [Clear_pop 0, Worker_pass 0] destroying_example) 0
       = Some \<lparr>body = Return (Number 7), started = True, state = Some (Inr (Number 7)), runs = 1\<rparr>"
  by (simp add: crowded_example_eq destroying_example_eq executor_eval channel_eval)

text \<open>
  C10, amended: the entry the destructor submits has the value of \<open>normal_priority\<close>,
  which is above those of \<open>low\<close>, \<open>lower\<close> and \<open>lowest\<close>; it is among the items when
  there is room and waits in \<open>push\<close> otherwise, and its task clears the running flag.
  In every state an executor can be in where such an entry is in the channel, the
  worker loop, left to itself, returns; however ties are broken, it returns with the
  flag clear, every entry of priority below normal still in the channel, and the task
  of each such entry exactly as it was: not run. And along every sequence of steps with
  no \<open>clear()\<close> and, on the worker thread, no \<open>yield()\<close> and no wait on the future of
  that task, such an entry stays in the channel, the worker's loop never dequeues it,
  and its task stays exactly as it was.
\<close>

theorem C10_destructor_abandons_lower_priorities:
  assumes "reachable st"
    and "sd \<in> set (items (execution_queue st))"
    and "priority sd = priority_value normal_priority"
    and "heap st (func sd) = Some t" and "body t = Set_not_running"
  shows "(\<exists>st'. run st st')
       \<and> (\<forall>st'. run st st' \<longrightarrow>
             \<not> is_running st'
             \<and> (\<forall>pf \<in> set (items (execution_queue st)).
                   priority pf < priority_value normal_priority \<longrightarrow>
                   pf \<in> set (items (execution_queue st'))
                   \<and> heap st' (func pf) = heap st (func pf)))
       \<and> (\<forall>pf \<in> set (items (execution_queue st)).
             priority pf < priority_value normal_priority
             \<and> (\<forall>e \<in> set evs. keeps_entries e \<and> no_inline_run (thread st) (func pf) e) \<longrightarrow>
             pf \<in> set (items (execution_queue (after_all evs st)))
             \<and> heap (after_all evs st) (func pf) = heap st (func pf)
             \<and> pf \<notin> set (dequeued_by_worker evs st))
       \<and> (if has_room (execution_queue s)
           then \<lparr>priority = priority_value normal_priority, func = next_handle s\<rparr>
                  \<in> set (items (execution_queue (snd (destructor c s))))
           else \<lparr>priority = priority_value normal_priority, func = next_handle s\<rparr>
                  \<in> set (waiting (execution_queue (snd (destructor c s)))))
       \<and> map_option body (heap (snd (destructor c s)) (next_handle s)) = Some Set_not_running
       \<and> priority_value low_priority < priority_value normal_priority
       \<and> priority_value lower_priority < priority_value normal_priority
       \<and> priority_value lowest_priority < priority_value normal_priority"
proof -
  have wf: "well_formed st" using assms(1) by (rule reachable_well_formed)
  define t0 where "t0 = (if started t then t\<lparr>started := False\<rparr> else t)"
  have t0: "\<not> started t0" "body t0 = Set_not_running"
    using assms(5) by (simp_all add: t0_def)
  have j: "is_running st \<longrightarrow> sd \<in> set (items (execution_queue st)) \<and> heap st (func sd) = Some t0"
  proof (cases "started t")
    case True
    then have "state t \<noteq> None" using reachable_started_resolved[OF assms(1,4)] by simp
    then have "\<not> is_running st" using reachable_stop_resolved[OF assms(1,4,5)] by simp
    then show ?thesis by simp
  next
    case False
    then show ?thesis using assms(2,4) by (simp add: t0_def)
  qed
  have ex: "\<exists>st'. run st st'"
    using wf j t0 by (rule run_terminates)
  have ab: "\<not> is_running st' \<and> pf \<in> set (items (execution_queue st'))
       \<and> heap st' (func pf) = heap st (func pf)"
    if "run st st'" "pf \<in> set (items (execution_queue st))"
      "priority pf < priority_value normal_priority" for st' pf
    using run_abandons_low[OF that(1) wf j t0 that(2)] that(3) assms(3) by simp
  have nr: "\<not> is_running st'" if "run st st'" for st'
    using that by (induction rule: run.induct) simp_all
  have all: "\<forall>st'. run st st' \<longrightarrow>
             \<not> is_running st'
             \<and> (\<forall>pf \<in> set (items (execution_queue st)).
                   priority pf < priority_value normal_priority \<longrightarrow>
                   pf \<in> set (items (execution_queue st'))
                   \<and> heap st' (func pf) = heap st (func pf))"
    using ab nr by blast
  have il: "pf \<in> set (items (execution_queue (after_all evs st)))
       \<and> heap (after_all evs st) (func pf) = heap st (func pf)
       \<and> pf \<notin> set (dequeued_by_worker evs st)"
    if "pf \<in> set (items (execution_queue st))" "priority pf < priority_value normal_priority"
      "\<forall>e \<in> set evs. keeps_entries e \<and> no_inline_run (thread st) (func pf) e" for pf
  proof (rule left_behind_after_all[OF t0 _ that(3) wf j that(1)])
    show "priority pf < priority sd" using that(2) assms(3) by simp
  qed
  have inter: "\<forall>pf \<in> set (items (execution_queue st)).
             priority pf < priority_value normal_priority
             \<and> (\<forall>e \<in> set evs. keeps_entries e \<and> no_inline_run (thread st) (func pf) e) \<longrightarrow>
             pf \<in> set (items (execution_queue (after_all evs st)))
             \<and> heap (after_all evs st) (func pf) = heap st (func pf)
             \<and> pf \<notin> set (dequeued_by_worker evs st)"
    using il by blast
  have pr: "priority_value low_priority < priority_value normal_priority"
    "priority_value lower_priority < priority_value normal_priority"
    "priority_value lowest_priority < priority_value normal_priority"
    by simp_all
  from ex all inter conjunct1[OF destructor_entry[of s c]]
    conjunct2[OF destructor_entry[of s c]] pr
  show ?thesis by (intro conjI)
qed

theorem C10_destructor_abandons_lower_priorities_witness:
  "reachable destroying_example
   \<and> \<lparr>priority = 3, func = 1\<rparr> \<in> set (items (execution_queue destroying_example))
   \<and> heap destroying_example 1
       = Some \<lparr>body = Set_not_running, started = False, state = None, runs = 0\<rparr>
   \<and> \<lparr>priority = 2, func = 0\<rparr> \<in> set (items (execution_queue destroying_example))
   \<and> run destroying_example destroyed_example
   \<and> \<not> is_running destroyed_example
   \<and> \<lparr>priority = 2, func = 0\<rparr> \<in> set (items (execution_queue destroyed_example))
   \<and> heap destroyed_example 0 = heap destroying_example 0
   \<and> heap destroyed_example 0
       = Some \<lparr>body = Return (Number 7), started = False, state = None, runs = 0\<rparr>
   \<and> heap (after_all [Call_begin_invoke (Return (Number 8)) high_priority,
                      Worker_pass 0, Call_stop 0, Call_get 0 (Future 2), Call_wait 1,
                      Worker_pass 0, Worker_pass 0]
              destroying_example) 0
       = Some \<lparr>body = Return (Number 7), started = False, state = None, runs = 0\<rparr>
   \<and> \<lparr>priority = 2, func = 0\<rparr>
       \<notin> set (dequeued_by_worker [Call_begin_invoke (Return (Number 8)) high_priority,
                      Worker_pass 0, Call_stop 0, Call_get 0 (Future 2), Call_wait 1,
                      Worker_pass 0, Worker_pass 0]
              destroying_example)"
proof -
  have sd: "\<lparr>priority = 3, func = 1\<rparr> \<in> set (items (execution_queue destroying_example))"
    by (simp add: destroying_example_eq)
  have pr: "priority \<lparr>priority = 3, func = 1\<rparr> = priority_value normal_priority" by simp
  have h: "heap destroying_example (func \<lparr>priority = 3, func = 1\<rparr>)
      = Some \<lparr>body = Set_not_running, started = False, state = None, runs = 0\<rparr>"
    by (simp add: destroying_example_eq)
  have b: "body \<lparr>body = Set_not_running, started = False, state = None, runs = 0\<rparr>
      = Set_not_running"
    by simp
  have low: "\<lparr>priority = 2, func = 0\<rparr> \<in> set (items (execution_queue destroying_example))"
    "priority \<lparr>priority = 2, func = 0\<rparr> < priority_value normal_priority"
    by (simp_all add: destroying_example_eq)
  have out: "\<forall>e \<in> set [Call_begin_invoke (Return (Number 8)) high_priority,
                      Worker_pass 0, Call_stop 0, Call_get 0 (Future 2), Call_wait 1,
                      Worker_pass 0, Worker_pass 0].
      keeps_entries e \<and> no_inline_run (thread destroying_example) (func \<lparr>priority = 2, func = 0\<rparr>) e"
    by (simp add: destroying_example_eq)
  note inst = C10_destructor_abandons_lower_priorities[OF reachable_destroying_example sd pr h b,
      of "[Call_begin_invoke (Return (Number 8)) high_priority,
           Worker_pass 0, Call_stop 0, Call_get 0 (Future 2), Call_wait 1,
           Worker_pass 0, Worker_pass 0]" new_example 1]
  have "\<forall>st'. run destroying_example st' \<longrightarrow>
             \<not> is_running st'
             \<and> (\<forall>pf \<in> set (items (execution_queue destroying_example)).
                   priority pf < priority_value normal_priority \<longrightarrow>
                   pf \<in> set (items (execution_queue st'))
                   \<and> heap st' (func pf) = heap destroying_example (func pf))"
    using inst by blast
  then have one: "\<not> is_running destroyed_example
      \<and> \<lparr>priority = 2, func = 0\<rparr> \<in> set (items (execution_queue destroyed_example))
      \<and> heap destroyed_example (func \<lparr>priority = 2, func = 0\<rparr>)
          = heap destroying_example (func \<lparr>priority = 2, func = 0\<rparr>)"
    using run_destroying_example low by blast
  have "\<forall>pf \<in> set (items (execution_queue destroying_example)).
          priority pf < priority_value normal_priority
          \<and> (\<forall>e \<in> set [Call_begin_invoke (Return (Number 8)) high_priority,
                      Worker_pass 0, Call_stop 0, Call_get 0 (Future 2), Call_wait 1,
                      Worker_pass 0, Worker_pass 0].
                keeps_entries e \<and> no_inline_run (thread destroying_example) (func pf) e) \<longrightarrow>
          heap (after_all [Call_begin_invoke (Return (Number 8)) high_priority,
                      Worker_pass 0, Call_stop 0, Call_get 0 (Future 2), Call_wait 1,
                      Worker_pass 0, Worker_pass 0]
                   destroying_example) (func pf)
            = heap destroying_example (func pf)
          \<and> pf \<notin> set (dequeued_by_worker [Call_begin_invoke (Return (Number 8)) high_priority,
                      Worker_pass 0, Call_stop 0, Call_get 0 (Future 2), Call_wait 1,
                      Worker_pass 0, Worker_pass 0]
                   destroying_example)"
    using inst by blast
  then have two: "heap (after_all [Call_begin_invoke (Return (Number 8)) high_priority,
                      Worker_pass 0, Call_stop 0, Call_get 0 (Future 2), Call_wait 1,
                      Worker_pass 0, Worker_pass 0]
                   destroying_example) (func \<lparr>priority = 2, func = 0\<rparr>)
            = heap destroying_example (func \<lparr>priority = 2, func = 0\<rparr>)
          \<and> \<lparr>priority = 2, func = 0\<rparr>
             \<notin> set (dequeued_by_worker [Call_begin_invoke (Return (Number 8)) high_priority,
                      Worker_pass 0, Call_stop 0, Call_get 0 (Future 2), Call_wait 1,
                      Worker_pass 0, Worker_pass 0]
                   destroying_example)"
    using low out by blast
  have h0: "heap destroying_example 0
      = Some \<lparr>body = Return (Number 7), started = False, state = None, runs = 0\<rparr>"
    by (simp add: destroying_example_eq)
  show ?thesis
    using reachable_destroying_example sd h low(1) run_destroying_example one two h0
    by (simp del: after.simps dequeued_by_worker.simps)
qed

end
